theory Spec2Isabelle
  imports Complex_Main "HOL-Library.Multiset"
begin

section \<open>The genetic-algorithm engine of ga.h\<close>

text \<open>
  The header \<^verbatim>\<open>src/ga.h\<close> defines three class templates: \<^verbatim>\<open>Nucl<Derived>\<close> (the
  nucleotide contract), \<^verbatim>\<open>Genom<N, S>\<close> and \<^verbatim>\<open>GenePool<N, S, R>\<close>. The template
  parameters \<^verbatim>\<open>N\<close> (nucleotide), \<^verbatim>\<open>S\<close> (scorer) and \<^verbatim>\<open>R\<close> (random engine) are the
  type variables \<open>'n\<close>, \<open>'s\<close> and \<open>'r\<close>; the operations the header calls on them are
  the fields of the record \<open>Params\<close>.

  Conventions of the embedding:
  \<^item> \<^verbatim>\<open>std::vector\<close> is a list; \<^verbatim>\<open>v[i]\<close> with \<open>i\<close> outside the vector is undefined
    behaviour in C++ and the value \<open>Inl OutOfRange\<close> here;
  \<^item> \<^verbatim>\<open>size_t\<close> values that count elements are \<open>nat\<close> (a vector never holds
    \<open>2 ^ 31\<close> elements in the runs considered, so the \<^verbatim>\<open>int\<close> loop counters of the
    header do not overflow); the generation counter wraps at \<open>2 ^ 64\<close>;
  \<^item> a \<^verbatim>\<open>float\<close> or \<^verbatim>\<open>double\<close> is a value of the type \<open>float\<close> below: NaN, an
    infinity or a real number; arithmetic rounds to the nearest value of the format,
    ties to even; the sign of a zero is not modelled;
  \<^item> a random engine is a state \<open>'r\<close> threaded through every draw.
\<close>

datatype error = OutOfRange | ConversionOverflow | NoStrictWeakOrdering

subsection \<open>Floating-point values\<close>

text \<open>
  The values of an IEEE 754 binary format, the signs of zeros apart. The comparisons
  \<^verbatim>\<open><\<close> and \<^verbatim>\<open><=\<close> are false as soon as one side is NaN.
\<close>

datatype float = NaN | NegInf | Finite real | PosInf

fun float_less :: "float \<Rightarrow> float \<Rightarrow> bool" where
  "float_less NaN y = False"
| "float_less x NaN = False"
| "float_less NegInf NegInf = False"
| "float_less NegInf y = True"
| "float_less (Finite a) (Finite b) = (a < b)"
| "float_less (Finite a) PosInf = True"
| "float_less (Finite a) NegInf = False"
| "float_less PosInf y = False"

fun float_le :: "float \<Rightarrow> float \<Rightarrow> bool" where
  "float_le NaN y = False"
| "float_le x NaN = False"
| "float_le NegInf y = True"
| "float_le (Finite a) (Finite b) = (a \<le> b)"
| "float_le (Finite a) PosInf = True"
| "float_le (Finite a) NegInf = False"
| "float_le PosInf PosInf = True"
| "float_le PosInf y = False"

text \<open>
  A format has \<open>precision\<close> significant bits and normal exponents from \<open>emin\<close> to
  \<open>emax\<close>: \<^verbatim>\<open>float\<close> is binary32 and \<^verbatim>\<open>double\<close> is binary64. An expression is
  evaluated in the format of its type (\<^verbatim>\<open>FLT_EVAL_METHOD\<close> is \<open>0\<close>).
\<close>

record float_format =
  precision :: nat
  emin :: int
  emax :: int

definition binary32 :: float_format where
  "binary32 = \<lparr>precision = 24, emin = - 126, emax = 127\<rparr>"

definition binary64 :: float_format where
  "binary64 = \<lparr>precision = 53, emin = - 1022, emax = 1023\<rparr>"

definition pow2 :: "int \<Rightarrow> real" where
  "pow2 k = (if 0 \<le> k then 2 ^ nat k else 1 / 2 ^ nat (- k))"

text \<open>The nearest integer, the even one of two that are equally near.\<close>

definition round_half_even :: "real \<Rightarrow> int" where
  "round_half_even x =
     (let f = \<lfloor>x\<rfloor>; d = x - of_int f in
      if d < 1 / 2 then f else if 1 / 2 < d then f + 1 else if even f then f else f + 1)"

text \<open>The binary exponent of a positive number: the \<open>e\<close> with \<open>2 ^ e \<le> x < 2 ^ (e + 1)\<close>.\<close>

function bin_exponent :: "real \<Rightarrow> int" where
  "bin_exponent x =
     (if 2 \<le> x then bin_exponent (x / 2) + 1
      else if 0 < x \<and> x < 1 then bin_exponent (x * 2) - 1
      else 0)"
  by pat_completeness auto
termination
proof (relation "measure (\<lambda>x. if 2 \<le> x then nat \<lfloor>x\<rfloor>
                               else if 0 < x \<and> x < 1 then nat \<lceil>1 / x\<rceil> else 0)")
  show "wf (measure (\<lambda>x::real. if 2 \<le> x then nat \<lfloor>x\<rfloor>
                               else if 0 < x \<and> x < 1 then nat \<lceil>1 / x\<rceil> else 0))"
    by simp
next
  fix x :: real
  assume x: "2 \<le> x"
  then have "x / 2 \<le> x - 1" by simp
  then have "\<lfloor>x / 2\<rfloor> \<le> \<lfloor>x - 1\<rfloor>" by (rule floor_mono)
  then have a: "\<lfloor>x / 2\<rfloor> < \<lfloor>x\<rfloor>" by simp
  from x have b: "2 \<le> \<lfloor>x\<rfloor>" by (simp add: le_floor_iff)
  from x have c: "\<not> (0 < x / 2 \<and> x / 2 < 1)" by simp
  show "(x / 2, x) \<in> measure (\<lambda>x. if 2 \<le> x then nat \<lfloor>x\<rfloor>
                               else if 0 < x \<and> x < 1 then nat \<lceil>1 / x\<rceil> else 0)"
  proof (cases "2 \<le> x / 2")
    case True
    from a b have "nat \<lfloor>x / 2\<rfloor> < nat \<lfloor>x\<rfloor>" by linarith
    with True x show ?thesis by (simp only: in_measure if_True simp_thms)
  next
    case False
    from b have "0 < nat \<lfloor>x\<rfloor>" by linarith
    with False c x show ?thesis by (simp only: in_measure if_True if_False simp_thms)
  qed
next
  fix x :: real
  assume n: "\<not> 2 \<le> x" and x: "0 < x \<and> x < 1"
  then have n2: "\<not> 2 \<le> x * 2" by simp
  from x have y: "1 < 1 / x" by simp
  then have c2: "2 \<le> \<lceil>1 / x\<rceil>" by (simp add: le_ceiling_iff)
  have d: "\<lceil>1 / (x * 2)\<rceil> < \<lceil>1 / x\<rceil>" if h: "x * 2 < 1"
  proof -
    from h x have "2 < 1 / x" by (simp add: field_simps)
    then have "1 / x / 2 \<le> 1 / x - 1" by simp
    then have "\<lceil>1 / x / 2\<rceil> \<le> \<lceil>1 / x - 1\<rceil>" by (rule ceiling_mono)
    also have "\<lceil>1 / x - 1\<rceil> = \<lceil>1 / x\<rceil> - 1" by (rule ceiling_diff_one)
    finally have "\<lceil>1 / x / 2\<rceil> < \<lceil>1 / x\<rceil>" by linarith
    moreover have "1 / x / 2 = 1 / (x * 2)" by (simp only: divide_divide_eq_left)
    ultimately show ?thesis by (simp only:)
  qed
  show "(x * 2, x) \<in> measure (\<lambda>x. if 2 \<le> x then nat \<lfloor>x\<rfloor>
                               else if 0 < x \<and> x < 1 then nat \<lceil>1 / x\<rceil> else 0)"
  proof (cases "x * 2 < 1")
    case True
    with d have "\<lceil>1 / (x * 2)\<rceil> < \<lceil>1 / x\<rceil>" by simp
    with c2 have "nat \<lceil>1 / (x * 2)\<rceil> < nat \<lceil>1 / x\<rceil>" by linarith
    moreover from True x have "0 < x * 2 \<and> x * 2 < 1" by simp
    ultimately show ?thesis using n n2 x by (simp only: in_measure if_True if_False simp_thms)
  next
    case False
    from c2 have "0 < nat \<lceil>1 / x\<rceil>" by linarith
    moreover from False have "\<not> (0 < x * 2 \<and> x * 2 < 1)" by simp
    ultimately show ?thesis using n n2 x by (simp only: in_measure if_True if_False simp_thms)
  qed
qed

text \<open>
  Rounding of a real number to a format, to nearest and ties to even: the number is
  cut to a multiple of the unit in the last place of its binade (of the lowest binade
  for a subnormal number); what rounds beyond the largest finite value is an infinity.
\<close>

definition ieee_round :: "float_format \<Rightarrow> real \<Rightarrow> float" where
  "ieee_round fmt x =
     (if x = 0 then Finite 0
      else
        let e = max (emin fmt) (bin_exponent \<bar>x\<bar>);
            ulp = pow2 (e - (int (precision fmt) - 1));
            m = round_half_even (\<bar>x\<bar> / ulp)
        in if emax fmt < e \<or> (e = emax fmt \<and> 2 ^ precision fmt \<le> m)
           then (if x < 0 then NegInf else PosInf)
           else Finite (sgn x * (of_int m * ulp)))"

text \<open>The operators \<^verbatim>\<open>*\<close>, \<^verbatim>\<open>-\<close> and \<^verbatim>\<open>/\<close> in a format.\<close>

definition float_negative :: "float \<Rightarrow> bool" where
  "float_negative a = float_less a (Finite 0)"

definition float_mul :: "float_format \<Rightarrow> float \<Rightarrow> float \<Rightarrow> float" where
  "float_mul fmt a b =
     (case (a, b) of
        (Finite x, Finite y) \<Rightarrow> ieee_round fmt (x * y)
      | _ \<Rightarrow>
          if a = NaN \<or> b = NaN \<or> a = Finite 0 \<or> b = Finite 0 then NaN
          else if float_negative a = float_negative b then PosInf else NegInf)"

definition float_sub :: "float_format \<Rightarrow> float \<Rightarrow> float \<Rightarrow> float" where
  "float_sub fmt a b =
     (case (a, b) of
        (Finite x, Finite y) \<Rightarrow> ieee_round fmt (x - y)
      | (Finite x, PosInf) \<Rightarrow> NegInf
      | (Finite x, NegInf) \<Rightarrow> PosInf
      | (PosInf, Finite y) \<Rightarrow> PosInf
      | (PosInf, NegInf) \<Rightarrow> PosInf
      | (NegInf, Finite y) \<Rightarrow> NegInf
      | (NegInf, PosInf) \<Rightarrow> NegInf
      | _ \<Rightarrow> NaN)"

definition float_div :: "float_format \<Rightarrow> float \<Rightarrow> float \<Rightarrow> float" where
  "float_div fmt a b =
     (case (a, b) of
        (Finite x, Finite y) \<Rightarrow>
          if y = 0 then (if x = 0 then NaN else if x < 0 then NegInf else PosInf)
          else ieee_round fmt (x / y)
      | (Finite x, PosInf) \<Rightarrow> Finite 0
      | (Finite x, NegInf) \<Rightarrow> Finite 0
      | (PosInf, Finite y) \<Rightarrow> if y < 0 then NegInf else PosInf
      | (NegInf, Finite y) \<Rightarrow> if y < 0 then PosInf else NegInf
      | _ \<Rightarrow> NaN)"

text \<open>
  Conversion of a floating-point value to \<^verbatim>\<open>size_t\<close>: truncation towards zero;
  undefined behaviour when the truncated value is not a \<^verbatim>\<open>size_t\<close>, as for NaN and
  the infinities.
\<close>

definition to_size_t :: "float \<Rightarrow> error + nat" where
  "to_size_t a =
     (case a of
        Finite x \<Rightarrow>
          if x \<le> - 1 \<or> 2 ^ 64 \<le> x then Inl ConversionOverflow else Inr (nat \<lfloor>x\<rfloor>)
      | _ \<Rightarrow> Inl ConversionOverflow)"

subsection \<open>Template parameters\<close>

text \<open>
  \<open>N_random\<close>, \<open>N_crossover_inplace\<close>, \<open>N_mutate\<close> are the three members
  \<^verbatim>\<open>Derived::random(rng)\<close>, \<^verbatim>\<open>Derived::crossover_inplace(a, b, c)\<close> (the third argument
  is the slot written, whose old content the callee may read) and
  \<^verbatim>\<open>nucl.mutate(rng)\<close>; \<open>N_default\<close> and \<open>S_default\<close> are the default-constructed
  values that \<^verbatim>\<open>vector::resize\<close> and \<^verbatim>\<open>Genom g;\<close> create; \<open>S_score\<close> reads the field
  \<^verbatim>\<open>scorer.score\<close>; \<open>R_seed\<close> is the constructor \<^verbatim>\<open>R(seed)\<close> and \<open>R_next\<close> is
  \<^verbatim>\<open>rng()\<close>.
\<close>

record ('n, 's, 'r) Params =
  N_random :: "'r \<Rightarrow> 'n \<times> 'r"
  N_crossover_inplace :: "'n \<Rightarrow> 'n \<Rightarrow> 'n \<Rightarrow> 'n"
  N_mutate :: "'n \<Rightarrow> 'r \<Rightarrow> 'n \<times> 'r"
  N_default :: 'n
  S_default :: 's
  S_score :: "'s \<Rightarrow> float"
  R_seed :: "nat \<Rightarrow> 'r"
  R_next :: "'r \<Rightarrow> nat \<times> 'r"

subsection \<open>Standard-library pieces the header calls\<close>

text \<open>
  \<^verbatim>\<open>std::uniform_int_distribution<size_t>(a, b)\<close>: a draw lies in \<open>[a, b]\<close>, both ends
  included, and every value of the interval can come out. The library's scaling of
  the engine's output is implementation-defined; the model reduces one engine output
  modulo the width of the interval.
\<close>

record uniform_int_distribution =
  dist_a :: nat
  dist_b :: nat

definition uniform_int ::
  "('r \<Rightarrow> nat \<times> 'r) \<Rightarrow> uniform_int_distribution \<Rightarrow> 'r \<Rightarrow> nat \<times> 'r" where
  "uniform_int nxt d rng =
     (case nxt rng of (x, rng') \<Rightarrow> (dist_a d + x mod (dist_b d - dist_a d + 1), rng'))"

text \<open>\<^verbatim>\<open>vector::resize(n)\<close>: truncates, or appends default-constructed elements.\<close>

definition resize :: "nat \<Rightarrow> 'a \<Rightarrow> 'a list \<Rightarrow> 'a list" where
  "resize n d xs = take n xs @ replicate (n - length xs) d"

text \<open>\<^verbatim>\<open>std::swap(v[i], v[j])\<close> on two valid positions.\<close>

definition swap_at :: "nat \<Rightarrow> nat \<Rightarrow> 'a list \<Rightarrow> 'a list" where
  "swap_at i j xs = xs[i := xs ! j, j := xs ! i]"

text \<open>
  \<^verbatim>\<open>std::shuffle(first, last, g)\<close>: the standard fixes only that the result is a
  permutation of the range. The model is the loop of the usual implementation:
  for \<open>i = 1, ..., len - 1\<close>, swap position \<open>i\<close> with a position drawn uniformly from
  \<open>[0, i]\<close>.
\<close>

function shuffle_loop ::
  "('r \<Rightarrow> nat \<times> 'r) \<Rightarrow> nat \<Rightarrow> 'a list \<Rightarrow> 'r \<Rightarrow> 'a list \<times> 'r" where
  "shuffle_loop nxt i xs rng =
     (if i < length xs
      then (case uniform_int nxt \<lparr>dist_a = 0, dist_b = i\<rparr> rng of
              (j, rng') \<Rightarrow> shuffle_loop nxt (Suc i) (swap_at i j xs) rng')
      else (xs, rng))"
  by pat_completeness auto
termination
  by (relation "measure (\<lambda>(nxt, i, xs, rng). length xs - i)") (auto simp: swap_at_def)

definition shuffle :: "('r \<Rightarrow> nat \<times> 'r) \<Rightarrow> 'a list \<Rightarrow> 'r \<Rightarrow> 'a list \<times> 'r" where
  "shuffle nxt xs rng = shuffle_loop nxt 1 xs rng"

text \<open>
  \<^verbatim>\<open>std::shuffle(v.begin() + k, v.end(), rng)\<close>: the first \<open>k\<close> slots stay, the rest is
  shuffled; \<^verbatim>\<open>v.begin() + k\<close> past the end is undefined behaviour.
\<close>

definition shuffle_from ::
  "('r \<Rightarrow> nat \<times> 'r) \<Rightarrow> nat \<Rightarrow> 'a list \<Rightarrow> 'r \<Rightarrow> error + ('a list \<times> 'r)" where
  "shuffle_from nxt k xs rng =
     (if k \<le> length xs
      then (case shuffle nxt (drop k xs) rng of (ys, rng') \<Rightarrow> Inr (take k xs @ ys, rng'))
      else Inl OutOfRange)"

subsection \<open>Genom\<close>

record ('n, 's) Genom =
  nucleotides :: "'n list"
  scorer :: 's

text \<open>\<^verbatim>\<open>Genom::random(n, rng)\<close>: \<open>n\<close> times \<^verbatim>\<open>push_back(Nucl<N>::random(rng))\<close>.\<close>

fun random_nucleotides ::
  "('n, 's, 'r) Params \<Rightarrow> nat \<Rightarrow> 'n list \<Rightarrow> 'r \<Rightarrow> 'n list \<times> 'r" where
  "random_nucleotides P 0 acc rng = (acc, rng)"
| "random_nucleotides P (Suc k) acc rng =
     (case N_random P rng of (x, rng') \<Rightarrow> random_nucleotides P k (acc @ [x]) rng')"

definition Genom_random ::
  "('n, 's, 'r) Params \<Rightarrow> nat \<Rightarrow> 'r \<Rightarrow> ('n, 's) Genom \<times> 'r" where
  "Genom_random P n rng =
     (case random_nucleotides P n [] rng of
        (ns, rng') \<Rightarrow> (\<lparr>nucleotides = ns, scorer = S_default P\<rparr>, rng'))"

text \<open>
  The two loops of \<^verbatim>\<open>Genom::crossover_inplace\<close> have one shape: for \<open>i\<close> from \<open>lo\<close>
  up to \<open>hi\<close>, \<^verbatim>\<open>Nucl<N>::crossover_inplace(x[i], y[i], &c[i])\<close>. The first loop runs
  it with \<open>(x, y) = (a, b)\<close> on \<open>[0, n)\<close>, the second with \<open>(x, y) = (b, a)\<close> on
  \<open>[n, a.size())\<close>.
\<close>

function crossover_range ::
  "('n, 's, 'r) Params \<Rightarrow> 'n list \<Rightarrow> 'n list \<Rightarrow> nat \<Rightarrow> nat \<Rightarrow> 'n list \<Rightarrow> error + 'n list" where
  "crossover_range P xs ys i hi c =
     (if i < hi
      then (if i < length xs \<and> i < length ys \<and> i < length c
            then crossover_range P xs ys (Suc i) hi
                   (c[i := N_crossover_inplace P (xs ! i) (ys ! i) (c ! i)])
            else Inl OutOfRange)
      else Inr c)"
  by pat_completeness auto
termination
  by (relation "measure (\<lambda>(P, xs, ys, i, hi, c). hi - i)") auto

definition Genom_crossover_inplace ::
  "('n, 's, 'r) Params \<Rightarrow> ('n, 's) Genom \<Rightarrow> ('n, 's) Genom \<Rightarrow> ('n, 's) Genom \<Rightarrow> nat
     \<Rightarrow> error + ('n, 's) Genom" where
  "Genom_crossover_inplace P a b c n =
     (let c0 = resize (length (nucleotides a)) (N_default P) (nucleotides c) in
      case crossover_range P (nucleotides a) (nucleotides b) 0 n c0 of
        Inl e \<Rightarrow> Inl e
      | Inr c1 \<Rightarrow>
          (case crossover_range P (nucleotides b) (nucleotides a) n (length (nucleotides a)) c1 of
             Inl e \<Rightarrow> Inl e
           | Inr c2 \<Rightarrow> Inr (c\<lparr>nucleotides := c2\<rparr>)))"

text \<open>\<^verbatim>\<open>Genom::mutate(n, rng)\<close>: \<^verbatim>\<open>nucleotides[n].mutate(rng)\<close>, no bounds check.\<close>

definition Genom_mutate ::
  "('n, 's, 'r) Params \<Rightarrow> nat \<Rightarrow> 'r \<Rightarrow> ('n, 's) Genom \<Rightarrow> error + (('n, 's) Genom \<times> 'r)" where
  "Genom_mutate P n rng g =
     (if n < length (nucleotides g)
      then (case N_mutate P (nucleotides g ! n) rng of
              (x, rng') \<Rightarrow> Inr (g\<lparr>nucleotides := (nucleotides g)[n := x]\<rparr>, rng'))
      else Inl OutOfRange)"

text \<open>
  \<^verbatim>\<open>Genom::shift(n)\<close>: \<^verbatim>\<open>std::rotate(begin, begin + n, end)\<close>, which makes the element
  at \<open>begin + n\<close> the first one; \<open>begin + n\<close> past the end is undefined behaviour.
\<close>

definition Genom_shift :: "nat \<Rightarrow> ('n, 's) Genom \<Rightarrow> error + ('n, 's) Genom" where
  "Genom_shift n g =
     (if n \<le> length (nucleotides g)
      then Inr (g\<lparr>nucleotides := drop n (nucleotides g) @ take n (nucleotides g)\<rparr>)
      else Inl OutOfRange)"

text \<open>A caller's loop: \<^verbatim>\<open>for (k = 0; k < count; k++) g.shift(n);\<close>\<close>

fun Genom_shift_times :: "nat \<Rightarrow> nat \<Rightarrow> ('n, 's) Genom \<Rightarrow> error + ('n, 's) Genom" where
  "Genom_shift_times 0 n g = Inr g"
| "Genom_shift_times (Suc k) n g =
     (case Genom_shift n g of Inl e \<Rightarrow> Inl e | Inr g' \<Rightarrow> Genom_shift_times k n g')"

text \<open>\<^verbatim>\<open>Genom::score()\<close> and \<^verbatim>\<open>Genom::operator<\<close>.\<close>

definition Genom_score :: "('n, 's, 'r) Params \<Rightarrow> ('n, 's) Genom \<Rightarrow> float" where
  "Genom_score P g = S_score P (scorer g)"

definition Genom_less :: "('n, 's, 'r) Params \<Rightarrow> ('n, 's) Genom \<Rightarrow> ('n, 's) Genom \<Rightarrow> bool" where
  "Genom_less P g other = float_less (S_score P (scorer g)) (S_score P (scorer other))"


text \<open>
  \<^verbatim>\<open>std::sort(first, last)\<close> orders a range by \<^verbatim>\<open>operator<\<close>, which has to be a
  strict weak ordering of the values in the range: irreflexive, transitive, and with
  a transitive incomparability. Otherwise the behaviour is undefined. Which of the
  orderings of equivalent elements comes out is unspecified; the model is insertion
  sort with the comparison passed in.
\<close>

definition strict_weak_ordering_on :: "('a \<Rightarrow> 'a \<Rightarrow> bool) \<Rightarrow> 'a list \<Rightarrow> bool" where
  "strict_weak_ordering_on lt xs =
     (list_all (\<lambda>a. \<not> lt a a) xs \<and>
      list_all (\<lambda>a. list_all (\<lambda>b. list_all (\<lambda>c.
        \<not> (lt a b \<and> lt b c \<and> \<not> lt a c) \<and>
        \<not> (\<not> lt a b \<and> \<not> lt b a \<and> \<not> lt b c \<and> \<not> lt c b \<and> (lt a c \<or> lt c a))) xs) xs) xs)"

fun insert_by :: "('a \<Rightarrow> 'a \<Rightarrow> bool) \<Rightarrow> 'a \<Rightarrow> 'a list \<Rightarrow> 'a list" where
  "insert_by lt x [] = [x]"
| "insert_by lt x (y # ys) = (if lt y x then y # insert_by lt x ys else x # y # ys)"

fun std_sort :: "('a \<Rightarrow> 'a \<Rightarrow> bool) \<Rightarrow> 'a list \<Rightarrow> 'a list" where
  "std_sort lt [] = []"
| "std_sort lt (x # xs) = insert_by lt x (std_sort lt xs)"

subsection \<open>GenePool\<close>

text \<open>
  The constructor seeds the engine with \<^verbatim>\<open>std::default_random_engine{}()\<close>, the first
  output of a default-constructed engine of the standard library: a constant that the
  library chooses.
\<close>

record platform =
  default_random_engine_first :: nat

record ('n, 's, 'r) GenePool =
  n_genoms :: nat
  take_count :: nat
  retain :: nat
  genoms :: "('n, 's) Genom list"
  rng :: 'r
  distr :: uniform_int_distribution
  generation :: nat
  shuffle_indices :: "nat list"
  next_generation :: "('n, 's) Genom list"

text \<open>The loop \<^verbatim>\<open>genoms.push_back(Genom<N, S>::random(genom_len, rng))\<close>.\<close>

fun random_genoms ::
  "('n, 's, 'r) Params \<Rightarrow> nat \<Rightarrow> nat \<Rightarrow> ('n, 's) Genom list \<Rightarrow> 'r
     \<Rightarrow> ('n, 's) Genom list \<times> 'r" where
  "random_genoms P 0 genom_len acc rg = (acc, rg)"
| "random_genoms P (Suc k) genom_len acc rg =
     (case Genom_random P genom_len rg of
        (g, rg') \<Rightarrow> random_genoms P k genom_len (acc @ [g]) rg')"

text \<open>
  The constructor. The member \<^verbatim>\<open>take\<close> is \<open>take_count\<close> here. It is initialised with
  \<^verbatim>\<open>genoms_count * take_value\<close>, a product of two \<^verbatim>\<open>float\<close>s (the count is converted
  first), and \<^verbatim>\<open>retain\<close> with \<^verbatim>\<open>genoms_count * (0.5 - take_value)\<close>, computed in
  \<^verbatim>\<open>double\<close>; a \<^verbatim>\<open>float\<close> is a \<^verbatim>\<open>double\<close> as it is. Both are then converted to
  \<^verbatim>\<open>size_t\<close>.
\<close>

definition GenePool_new ::
  "('n, 's, 'r) Params \<Rightarrow> platform \<Rightarrow> nat \<Rightarrow> nat \<Rightarrow> float \<Rightarrow> error + ('n, 's, 'r) GenePool" where
  "GenePool_new P pl genoms_count genom_len take_value =
     (case to_size_t (float_mul binary32 (ieee_round binary32 (real genoms_count))
                        take_value) of
        Inl e \<Rightarrow> Inl e
      | Inr tk \<Rightarrow>
     (case to_size_t (float_mul binary64 (ieee_round binary64 (real genoms_count))
                        (float_sub binary64 (Finite (1 / 2)) take_value)) of
        Inl e \<Rightarrow> Inl e
      | Inr rt \<Rightarrow>
     (case random_genoms P genoms_count genom_len []
             (R_seed P (default_random_engine_first pl)) of
        (gs, rg') \<Rightarrow>
          Inr \<lparr>n_genoms = genoms_count, take_count = tk, retain = rt, genoms = gs,
               rng = rg', distr = \<lparr>dist_a = 0, dist_b = genom_len\<rparr>, generation = 0,
               shuffle_indices = [0..<genoms_count], next_generation = []\<rparr>)))"

text \<open>
  \<^verbatim>\<open>simulate\<close>: the simulator gets each Genom by reference; then
  \<^verbatim>\<open>std::sort(genoms.rbegin(), genoms.rend())\<close> sorts the reversed view ascending, which
  is undefined when \<^verbatim>\<open>Genom::operator<\<close> is no strict weak ordering of the population.
\<close>

definition GenePool_simulate ::
  "('n, 's, 'r) Params \<Rightarrow> (('n, 's) Genom \<Rightarrow> ('n, 's) Genom) \<Rightarrow> ('n, 's, 'r) GenePool
     \<Rightarrow> error + ('n, 's, 'r) GenePool" where
  "GenePool_simulate P simulator s =
     (let gs = map simulator (genoms s) in
      if strict_weak_ordering_on (Genom_less P) gs
      then Inr (s\<lparr>genoms := rev (std_sort (Genom_less P) (rev gs)),
                  generation := (generation s + 1) mod 2 ^ 64\<rparr>)
      else Inl NoStrictWeakOrdering)"

fun shift_all :: "nat \<Rightarrow> ('n, 's) Genom list \<Rightarrow> error + ('n, 's) Genom list" where
  "shift_all n [] = Inr []"
| "shift_all n (g # gs) =
     (case Genom_shift n g of
        Inl e \<Rightarrow> Inl e
      | Inr g' \<Rightarrow> (case shift_all n gs of Inl e \<Rightarrow> Inl e | Inr gs' \<Rightarrow> Inr (g' # gs')))"

definition GenePool_shift ::
  "nat \<Rightarrow> ('n, 's, 'r) GenePool \<Rightarrow> error + ('n, 's, 'r) GenePool" where
  "GenePool_shift n s =
     (case shift_all n (genoms s) of Inl e \<Rightarrow> Inl e | Inr gs \<Rightarrow> Inr (s\<lparr>genoms := gs\<rparr>))"

definition GenePool_reset :: "('n, 's, 'r) GenePool \<Rightarrow> ('n, 's, 'r) GenePool" where
  "GenePool_reset s = s\<lparr>generation := 0\<rparr>"

definition GenePool_generations :: "('n, 's, 'r) GenePool \<Rightarrow> nat" where
  "GenePool_generations s = generation s"

definition GenePool_best :: "('n, 's, 'r) GenePool \<Rightarrow> error + ('n, 's) Genom" where
  "GenePool_best s = (if 0 < length (genoms s) then Inr (genoms s ! 0) else Inl OutOfRange)"

subsection \<open>GenePool::select\<close>

text \<open>
  \<^verbatim>\<open>select\<close> is modelled in three consecutive parts, so that the state between them
  can be named: the choice of the mating pool (the first shuffle and the copy loop),
  the breeding (resize, two shuffles, two crossover loops), and the end (the mutation
  loop and the swap).
\<close>

text \<open>The loop \<^verbatim>\<open>shuffle_indices[i + half] = shuffle_indices[i]\<close> for \<open>i < half\<close>.\<close>

function copy_first_half :: "nat \<Rightarrow> nat \<Rightarrow> nat list \<Rightarrow> error + nat list" where
  "copy_first_half i half idx =
     (if i < half
      then (if i + half < length idx
            then copy_first_half (Suc i) half (idx[i + half := idx ! i])
            else Inl OutOfRange)
      else Inr idx)"
  by pat_completeness auto
termination
  by (relation "measure (\<lambda>(i, half, idx). half - i)") auto

definition select_mating_pool ::
  "('n, 's, 'r) Params \<Rightarrow> ('n, 's, 'r) GenePool \<Rightarrow> error + ('n, 's, 'r) GenePool" where
  "select_mating_pool P s =
     (case shuffle_from (R_next P) (take_count s) (shuffle_indices s) (rng s) of
        Inl e \<Rightarrow> Inl e
      | Inr (idx1, rg1) \<Rightarrow>
          (case copy_first_half 0 (n_genoms s div 2) idx1 of
             Inl e \<Rightarrow> Inl e
           | Inr idx2 \<Rightarrow> Inr (s\<lparr>shuffle_indices := idx2, rng := rg1\<rparr>)))"

text \<open>
  One crossover loop. \<open>off\<close> is \<open>0\<close> in the first loop and \<open>half\<close> in the second
  (\<^verbatim>\<open>&next_generation[i]\<close> and \<^verbatim>\<open>&next_generation[i+half]\<close>). The list \<open>calls\<close> is a
  log of the calls of \<^verbatim>\<open>Genom::crossover_inplace\<close>: the index of each parent in
  \<^verbatim>\<open>genoms\<close>, the slot of the child and the crossover point. It takes no part in the
  computation.
\<close>

record crossover_call =
  first_parent :: nat
  second_parent :: nat
  child_slot :: nat
  crossover_point :: nat

function crossover_loop ::
  "('n, 's, 'r) Params \<Rightarrow> ('n, 's) Genom list \<Rightarrow> nat list \<Rightarrow> uniform_int_distribution
     \<Rightarrow> nat \<Rightarrow> nat \<Rightarrow> nat \<Rightarrow> ('n, 's) Genom list \<Rightarrow> 'r \<Rightarrow> crossover_call list
     \<Rightarrow> error + (('n, 's) Genom list \<times> 'r \<times> crossover_call list)" where
  "crossover_loop P gs idx d half off i ng rg calls =
     (if i < half
      then (if i + half < length idx \<and> idx ! i < length gs \<and> idx ! (i + half) < length gs
               \<and> i + off < length ng
            then (case uniform_int (R_next P) d rg of
                    (n, rg') \<Rightarrow>
                      (case Genom_crossover_inplace P (gs ! (idx ! i)) (gs ! (idx ! (i + half)))
                              (ng ! (i + off)) n of
                         Inl e \<Rightarrow> Inl e
                       | Inr c \<Rightarrow>
                           crossover_loop P gs idx d half off (Suc i) (ng[i + off := c]) rg'
                             (calls @ [\<lparr>first_parent = idx ! i, second_parent = idx ! (i + half),
                                        child_slot = i + off, crossover_point = n\<rparr>])))
            else Inl OutOfRange)
      else Inr (ng, rg, calls))"
  by pat_completeness auto
termination
  by (relation "measure (\<lambda>(P, gs, idx, d, half, off, i, ng, rg, calls). half - i)") auto

definition select_breed ::
  "('n, 's, 'r) Params \<Rightarrow> ('n, 's, 'r) GenePool
     \<Rightarrow> error + (('n, 's, 'r) GenePool \<times> crossover_call list)" where
  "select_breed P s =
     (case select_mating_pool P s of
        Inl e \<Rightarrow> Inl e
      | Inr s1 \<Rightarrow>
     (let half = n_genoms s1 div 2;
          ng0 = resize (n_genoms s1) \<lparr>nucleotides = [], scorer = S_default P\<rparr>
                  (next_generation s1)
      in
     (case shuffle_from (R_next P) half (shuffle_indices s1) (rng s1) of
        Inl e \<Rightarrow> Inl e
      | Inr (idx2, rg2) \<Rightarrow>
     (case crossover_loop P (genoms s1) idx2 (distr s1) half 0 0 ng0 rg2 [] of
        Inl e \<Rightarrow> Inl e
      | Inr (ng1, rg3, calls1) \<Rightarrow>
     (case shuffle_from (R_next P) half idx2 rg3 of
        Inl e \<Rightarrow> Inl e
      | Inr (idx3, rg4) \<Rightarrow>
     (case crossover_loop P (genoms s1) idx3 (distr s1) half half 0 ng1 rg4 calls1 of
        Inl e \<Rightarrow> Inl e
      | Inr (ng2, rg5, calls2) \<Rightarrow>
          Inr (s1\<lparr>shuffle_indices := idx3, next_generation := ng2, rng := rg5\<rparr>,
               calls2)))))))"

text \<open>The loop \<^verbatim>\<open>genom.mutate(distr(rng), rng)\<close> over \<^verbatim>\<open>next_generation\<close>.\<close>

fun mutate_all ::
  "('n, 's, 'r) Params \<Rightarrow> uniform_int_distribution \<Rightarrow> ('n, 's) Genom list \<Rightarrow> 'r
     \<Rightarrow> error + (('n, 's) Genom list \<times> 'r)" where
  "mutate_all P d [] rg = Inr ([], rg)"
| "mutate_all P d (g # gs) rg =
     (case uniform_int (R_next P) d rg of
        (n, rg1) \<Rightarrow>
          (case Genom_mutate P n rg1 g of
             Inl e \<Rightarrow> Inl e
           | Inr (g', rg2) \<Rightarrow>
               (case mutate_all P d gs rg2 of
                  Inl e \<Rightarrow> Inl e
                | Inr (gs', rg3) \<Rightarrow> Inr (g' # gs', rg3))))"

definition select_mutate_swap ::
  "('n, 's, 'r) Params \<Rightarrow> ('n, 's, 'r) GenePool \<Rightarrow> error + ('n, 's, 'r) GenePool" where
  "select_mutate_swap P s =
     (case mutate_all P (distr s) (next_generation s) (rng s) of
        Inl e \<Rightarrow> Inl e
      | Inr (ng, rg') \<Rightarrow> Inr (s\<lparr>genoms := ng, next_generation := genoms s, rng := rg'\<rparr>))"

definition GenePool_select ::
  "('n, 's, 'r) Params \<Rightarrow> ('n, 's, 'r) GenePool \<Rightarrow> error + ('n, 's, 'r) GenePool" where
  "GenePool_select P s =
     (case select_breed P s of
        Inl e \<Rightarrow> Inl e
      | Inr (s1, calls) \<Rightarrow> select_mutate_swap P s1)"

subsection \<open>The pools a program can hold\<close>

text \<open>
  A pool is made by the constructor and changed by the public member functions only.
  A simulator is taken to leave the number of nucleotides of a Genom alone (the
  simulator of the test only sets the scorer).
\<close>

inductive reachable :: "('n, 's, 'r) Params \<Rightarrow> ('n, 's, 'r) GenePool \<Rightarrow> bool"
  for P :: "('n, 's, 'r) Params" where
  constructed: "GenePool_new P pl genoms_count genom_len take_value = Inr s \<Longrightarrow> reachable P s"
| simulated: "reachable P s \<Longrightarrow>
     (\<And>g. length (nucleotides (simulator g)) = length (nucleotides g)) \<Longrightarrow>
     GenePool_simulate P simulator s = Inr s' \<Longrightarrow> reachable P s'"
| selected: "reachable P s \<Longrightarrow> GenePool_select P s = Inr s' \<Longrightarrow> reachable P s'"
| shifted: "reachable P s \<Longrightarrow> GenePool_shift n s = Inr s' \<Longrightarrow> reachable P s'"
| reset: "reachable P s \<Longrightarrow> reachable P (GenePool_reset s)"

text \<open>
  What every such pool satisfies (\<open>reachable_inv\<close> below): the population has
  \<open>n_genoms\<close> members, each of \<open>genom_len\<close> nucleotides, the upper bound of \<open>distr\<close>;
  the index array has \<open>n_genoms\<close> entries, each a position of the population, and its
  slots below both \<open>take\<close> and \<open>half\<close> hold their own position; the staging array is
  empty or full.
\<close>

definition pool_inv :: "('n, 's, 'r) GenePool \<Rightarrow> bool" where
  "pool_inv s \<longleftrightarrow>
     length (genoms s) = n_genoms s \<and>
     (\<forall>g \<in> set (genoms s). length (nucleotides g) = dist_b (distr s)) \<and>
     dist_a (distr s) = 0 \<and>
     length (shuffle_indices s) = n_genoms s \<and>
     (\<forall>x \<in> set (shuffle_indices s). x < n_genoms s) \<and>
     (\<forall>k. k < take_count s \<and> k < n_genoms s div 2 \<longrightarrow> shuffle_indices s ! k = k) \<and>
     (next_generation s = [] \<or> length (next_generation s) = n_genoms s) \<and>
     (\<forall>g \<in> set (next_generation s). length (nucleotides g) = dist_b (distr s))"

subsection \<open>The instance of the test\<close>

text \<open>
  \<^verbatim>\<open>src/tests/max_integer.cpp\<close> instantiates the engine with \<^verbatim>\<open>IntNucl\<close> (an
  \<^verbatim>\<open>int32_t\<close> value, here an \<open>int\<close>: the values stay far from the bounds), \<^verbatim>\<open>Scorer\<close>
  (a \<^verbatim>\<open>float\<close> field) and a \<^verbatim>\<open>Simulator\<close>. \<open>dist\<close> is the global
  \<^verbatim>\<open>std::uniform_int_distribution<int32_t> dist(-5, 5)\<close>; \<open>c_div\<close> is the division of
  C++, which truncates towards zero.
\<close>

record Scorer =
  score :: float

definition dist :: "('r \<Rightarrow> nat \<times> 'r) \<Rightarrow> 'r \<Rightarrow> int \<times> 'r" where
  "dist nxt rg = (case nxt rg of (x, rg') \<Rightarrow> (- 5 + int (x mod 11), rg'))"

definition c_div :: "int \<Rightarrow> int \<Rightarrow> int" where
  "c_div a b = sgn a * sgn b * (\<bar>a\<bar> div \<bar>b\<bar>)"

definition IntNucl_random :: "('r \<Rightarrow> nat \<times> 'r) \<Rightarrow> 'r \<Rightarrow> int \<times> 'r" where
  "IntNucl_random nxt rg = dist nxt rg"

definition IntNucl_mutate :: "('r \<Rightarrow> nat \<times> 'r) \<Rightarrow> int \<Rightarrow> 'r \<Rightarrow> int \<times> 'r" where
  "IntNucl_mutate nxt v rg = (case dist nxt rg of (d, rg') \<Rightarrow> (v + d, rg'))"

definition IntNucl_crossover_inplace :: "int \<Rightarrow> int \<Rightarrow> int \<Rightarrow> int" where
  "IntNucl_crossover_inplace a b c = c_div (a + b) 2"

text \<open>
  \<^verbatim>\<open>Simulator::get_value\<close> and \<^verbatim>\<open>Simulator::simulate\<close>; \<open>max_v\<close> is the private field
  \<^verbatim>\<open>max_\<close>. The score is \<^verbatim>\<open>10.0f\<close>, or \<^verbatim>\<open>1.0f / std::abs(m - max_)\<close>, a division of
  \<^verbatim>\<open>float\<close>s after the conversion of the integer.
\<close>

definition Simulator_get_value :: "(int, Scorer) Genom \<Rightarrow> int" where
  "Simulator_get_value g = sum_list (nucleotides g)"

definition Simulator_simulate :: "int \<Rightarrow> (int, Scorer) Genom \<Rightarrow> (int, Scorer) Genom" where
  "Simulator_simulate max_v g =
     (let m = Simulator_get_value g in
      g\<lparr>scorer := (if m = max_v then \<lparr>score = Finite 10\<rparr>
                    else \<lparr>score = float_div binary32 (Finite 1)
                           (ieee_round binary32 (real_of_int \<bar>m - max_v\<bar>))\<rparr>)\<rparr>)"

text \<open>
  A simulator of another caller: it scores a Genom of value \<open>v\<close> with
  \<^verbatim>\<open>float(v * v) / float(v)\<close>.
\<close>

definition quotient_simulate :: "(int, Scorer) Genom \<Rightarrow> (int, Scorer) Genom" where
  "quotient_simulate g =
     (let v = Simulator_get_value g in
      g\<lparr>scorer := \<lparr>score = float_div binary32 (ieee_round binary32 (real_of_int (v * v)))
                               (ieee_round binary32 (real_of_int v))\<rparr>\<rparr>)"

text \<open>
  The engine type \<^verbatim>\<open>R\<close> is the caller's choice. A replay engine hands out the numbers
  of a fixed tape, then zeros; its constructor ignores the seed.
\<close>

fun replay_next :: "nat list \<Rightarrow> nat \<times> nat list" where
  "replay_next [] = (0, [])"
| "replay_next (x # xs) = (x, xs)"

definition test_params :: "nat list \<Rightarrow> (int, Scorer, nat list) Params" where
  "test_params tape =
     \<lparr>N_random = IntNucl_random replay_next,
      N_crossover_inplace = IntNucl_crossover_inplace,
      N_mutate = IntNucl_mutate replay_next,
      N_default = 0,
      S_default = \<lparr>score = Finite 0\<rparr>,
      S_score = score,
      R_seed = (\<lambda>seed. tape),
      R_next = replay_next\<rparr>"

definition test_platform :: platform where
  "test_platform = \<lparr>default_random_engine_first = 16807\<rparr>"

section \<open>Properties\<close>

declare shuffle_loop.simps [simp del]
declare crossover_range.simps [simp del]
declare copy_first_half.simps [simp del]
declare crossover_loop.simps [simp del]
declare bin_exponent.simps [simp del]

subsection \<open>Floating-point values\<close>

lemma pow2_add1: "pow2 (k + 1) = 2 * pow2 k"
proof -
  consider "0 \<le> k" | "k = - 1" | "k < - 1" by linarith
  then show ?thesis
  proof cases
    case 1
    then have "nat (k + 1) = Suc (nat k)" by simp
    with 1 show ?thesis by (simp add: pow2_def)
  next
    case 2
    then show ?thesis by (simp add: pow2_def)
  next
    case 3
    then have "nat (- k) = Suc (nat (- (k + 1)))" by simp
    with 3 show ?thesis by (simp add: pow2_def)
  qed
qed

lemma pow2_diff1: "pow2 (k - 1) = pow2 k / 2"
  using pow2_add1 [of "k - 1"] by simp

lemma bin_exponent_bounds:
  "0 < x \<Longrightarrow> pow2 (bin_exponent x) \<le> x \<and> x < pow2 (bin_exponent x + 1)"
proof (induction x rule: bin_exponent.induct)
  case (1 x)
  consider "2 \<le> x" | "x < 1" | "1 \<le> x" "x < 2" by linarith
  then show ?case
  proof cases
    case 1
    then have e: "bin_exponent x = bin_exponent (x / 2) + 1"
      by (subst bin_exponent.simps) simp
    from 1 have "0 < x / 2" by simp
    from "1.IH"(1) [OF 1 this]
    have a: "pow2 (bin_exponent (x / 2)) \<le> x / 2"
      and b: "x / 2 < pow2 (bin_exponent (x / 2) + 1)" by simp_all
    have p1: "pow2 (bin_exponent (x / 2) + 1) = 2 * pow2 (bin_exponent (x / 2))"
      by (rule pow2_add1)
    have p2: "pow2 (bin_exponent (x / 2) + 1 + 1) = 2 * pow2 (bin_exponent (x / 2) + 1)"
      by (rule pow2_add1)
    from a p1 have "pow2 (bin_exponent (x / 2) + 1) \<le> x" by linarith
    moreover from b p2 have "x < pow2 (bin_exponent (x / 2) + 1 + 1)" by linarith
    ultimately show ?thesis unfolding e by blast
  next
    case 2
    with "1.prems" have c: "\<not> 2 \<le> x" "0 < x \<and> x < 1" by simp_all
    then have e: "bin_exponent x = bin_exponent (x * 2) - 1"
      by (subst bin_exponent.simps) simp
    from "1.prems" have "0 < x * 2" by simp
    from "1.IH"(2) [OF c this]
    have a: "pow2 (bin_exponent (x * 2)) \<le> x * 2"
      and b: "x * 2 < pow2 (bin_exponent (x * 2) + 1)" by simp_all
    have p1: "pow2 (bin_exponent (x * 2) - 1) = pow2 (bin_exponent (x * 2)) / 2"
      by (rule pow2_diff1)
    have p2: "pow2 (bin_exponent (x * 2) - 1 + 1) = 2 * pow2 (bin_exponent (x * 2) - 1)"
      by (rule pow2_add1)
    have p3: "pow2 (bin_exponent (x * 2) + 1) = 2 * pow2 (bin_exponent (x * 2))"
      by (rule pow2_add1)
    from a p1 have "pow2 (bin_exponent (x * 2) - 1) \<le> x" by linarith
    moreover from b p1 p2 p3 have "x < pow2 (bin_exponent (x * 2) - 1 + 1)" by linarith
    ultimately show ?thesis unfolding e by blast
  next
    case 3
    then have "bin_exponent x = 0" by (subst bin_exponent.simps) simp
    with 3 show ?thesis by (simp add: pow2_def)
  qed
qed

text \<open>
  Some roundings: \<^verbatim>\<open>0.52f\<close> and \<^verbatim>\<open>50 * 0.52f\<close>, a tie that goes to the even
  significand of \<open>26\<close>; \<^verbatim>\<open>0.3f\<close> and \<^verbatim>\<open>10 * 0.3f\<close>; two integers above \<open>2 ^ 24\<close>.
\<close>

lemma ieee_round_examples:
  "ieee_round binary32 (13 / 25) = Finite (8724152 / 2 ^ 24) \<and>
   float_mul binary32 (ieee_round binary32 50) (Finite (8724152 / 2 ^ 24)) = Finite 26 \<and>
   ieee_round binary32 (3 / 10) = Finite (10066330 / 2 ^ 25) \<and>
   float_mul binary32 (ieee_round binary32 10) (Finite (10066330 / 2 ^ 25)) = Finite 3 \<and>
   ieee_round binary32 (16777217) = Finite 16777216 \<and>
   ieee_round binary32 (16777219) = Finite 16777220"
  by code_simp

subsection \<open>Genom\<close>

lemma random_nucleotides_length:
  "length (fst (random_nucleotides P n acc rg)) = length acc + n"
  by (induction n arbitrary: acc rg) (auto split: prod.splits)

lemma Genom_random_length:
  "length (nucleotides (fst (Genom_random P n rg))) = n"
  using random_nucleotides_length [of P n "[]" rg]
  by (auto simp: Genom_random_def split: prod.splits)

lemma resize_length: "length (resize n d xs) = n"
  by (simp add: resize_def)

lemma resize_same: "length xs = n \<Longrightarrow> resize n d xs = xs"
  by (simp add: resize_def)

lemma crossover_range_ok:
  "hi \<le> length xs \<Longrightarrow> hi \<le> length ys \<Longrightarrow> hi \<le> length c \<Longrightarrow>
   \<exists>c'. crossover_range P xs ys i hi c = Inr c' \<and> length c' = length c \<and>
     (\<forall>k < length c. c' ! k =
        (if i \<le> k \<and> k < hi then N_crossover_inplace P (xs ! k) (ys ! k) (c ! k) else c ! k))"
proof (induction P xs ys i hi c rule: crossover_range.induct)
  case (1 P xs ys i hi c)
  show ?case
  proof (cases "i < hi")
    case False
    then show ?thesis by (auto simp: crossover_range.simps)
  next
    case True
    let ?c1 = "c[i := N_crossover_inplace P (xs ! i) (ys ! i) (c ! i)]"
    from True 1(2-4) have inr: "i < length xs \<and> i < length ys \<and> i < length c" by simp
    from 1(1) [OF True inr 1(2) 1(3)] 1(4)
    obtain c' where c': "crossover_range P xs ys (Suc i) hi ?c1 = Inr c'"
      "length c' = length ?c1"
      "\<forall>k < length ?c1. c' ! k =
        (if Suc i \<le> k \<and> k < hi then N_crossover_inplace P (xs ! k) (ys ! k) (?c1 ! k) else ?c1 ! k)"
      by auto
    have eq: "crossover_range P xs ys i hi c = Inr c'"
      using True inr c'(1) by (subst crossover_range.simps) simp
    have "\<forall>k < length c. c' ! k =
        (if i \<le> k \<and> k < hi then N_crossover_inplace P (xs ! k) (ys ! k) (c ! k) else c ! k)"
    proof (intro allI impI)
      fix k assume k: "k < length c"
      show "c' ! k = (if i \<le> k \<and> k < hi then N_crossover_inplace P (xs ! k) (ys ! k) (c ! k) else c ! k)"
      proof (cases "k = i")
        case True
        with c'(3) k inr \<open>i < hi\<close> show ?thesis by simp
      next
        case False
        with c'(3) k show ?thesis by (auto simp: nth_list_update)
      qed
    qed
    with eq c'(2) show ?thesis by simp
  qed
qed

lemma crossover_range_length:
  "crossover_range P xs ys i hi c = Inr c' \<Longrightarrow> length c' = length c"
proof (induction P xs ys i hi c rule: crossover_range.induct)
  case (1 P xs ys i hi c)
  then show ?case
    by (subst (asm) (2) crossover_range.simps) (auto split: if_splits)
qed

lemma Genom_shift_ok:
  "n \<le> length (nucleotides g) \<Longrightarrow>
   \<exists>g'. Genom_shift n g = Inr g' \<and> scorer g' = scorer g \<and>
     length (nucleotides g') = length (nucleotides g) \<and>
     (\<forall>i < length (nucleotides g).
        nucleotides g' ! i = nucleotides g ! ((i + n) mod length (nucleotides g)))"
proof -
  assume n: "n \<le> length (nucleotides g)"
  let ?xs = "nucleotides g"
  have "\<forall>i < length ?xs. (drop n ?xs @ take n ?xs) ! i = ?xs ! ((i + n) mod length ?xs)"
  proof (intro allI impI)
    fix i assume i: "i < length ?xs"
    show "(drop n ?xs @ take n ?xs) ! i = ?xs ! ((i + n) mod length ?xs)"
    proof (cases "i < length ?xs - n")
      case True
      then have "(i + n) mod length ?xs = n + i" by simp
      with True show ?thesis by (simp add: nth_append add.commute)
    next
      case False
      with i n have "length ?xs \<le> i + n" "i + n - length ?xs < length ?xs"
        by simp_all
      then have "(i + n) mod length ?xs = i + n - length ?xs"
        by (simp add: le_mod_geq)
      moreover have "i - (length ?xs - n) = i + n - length ?xs" using False n by simp
      ultimately show ?thesis using False i n by (simp add: nth_append)
    qed
  qed
  with n show ?thesis by (simp add: Genom_shift_def)
qed

lemma Genom_shift_times_rotate:
  "0 < length (nucleotides g) \<Longrightarrow>
   Genom_shift_times k 1 g = Inr (g\<lparr>nucleotides := rotate k (nucleotides g)\<rparr>)"
proof (induction k arbitrary: g)
  case 0
  then show ?case by simp
next
  case (Suc k)
  let ?g1 = "g\<lparr>nucleotides := rotate1 (nucleotides g)\<rparr>"
  from Suc.prems have s: "Genom_shift 1 g = Inr ?g1"
    by (cases "nucleotides g") (simp_all add: Genom_shift_def)
  from Suc.prems have "0 < length (nucleotides ?g1)" by simp
  from Suc.IH [OF this] s show ?case
    by (simp add: rotate1_rotate_swap)
qed


text \<open>
  Claim C5 (length invariant). \<^verbatim>\<open>Genom::random(L, rng)\<close> returns a Genom of \<open>L\<close>
  nucleotides. \<^verbatim>\<open>Genom::crossover_inplace\<close> on two parents of length \<open>L\<close> with a
  crossover point \<open>n \<le> L\<close> returns, and leaves a child of length \<open>L\<close>, whatever the
  length of the child slot was; whenever it returns, the child has the length of the
  first parent. \<^verbatim>\<open>Genom::mutate\<close> with an index inside the Genom returns and leaves the
  length as it was.
\<close>

theorem length_invariant:
  "length (nucleotides (fst (Genom_random P L rg))) = L \<and>
   (length (nucleotides a) = L \<longrightarrow> length (nucleotides b) = L \<longrightarrow> n \<le> L \<longrightarrow>
      (\<exists>c'. Genom_crossover_inplace P a b c n = Inr c' \<and> length (nucleotides c') = L)) \<and>
   (\<forall>c'. Genom_crossover_inplace P a b c n = Inr c' \<longrightarrow>
      length (nucleotides c') = length (nucleotides a)) \<and>
   (m < length (nucleotides g) \<longrightarrow>
      (\<exists>g' rg'. Genom_mutate P m rg g = Inr (g', rg') \<and>
         length (nucleotides g') = length (nucleotides g)))"
proof (intro conjI impI allI)
  show "length (nucleotides (fst (Genom_random P L rg))) = L"
    by (rule Genom_random_length)
next
  assume a: "length (nucleotides a) = L" and b: "length (nucleotides b) = L" and n: "n \<le> L"
  let ?c0 = "resize L (N_default P) (nucleotides c)"
  from a b n obtain c1 where c1:
    "crossover_range P (nucleotides a) (nucleotides b) 0 n ?c0 = Inr c1" "length c1 = L"
    using crossover_range_ok [of n "nucleotides a" "nucleotides b" ?c0 P 0]
    by (auto simp: resize_length)
  from a b c1(2) obtain c2 where c2:
    "crossover_range P (nucleotides b) (nucleotides a) n L c1 = Inr c2" "length c2 = L"
    using crossover_range_ok [of L "nucleotides b" "nucleotides a" c1 P n]
    by auto
  from a c1 c2 show "\<exists>c'. Genom_crossover_inplace P a b c n = Inr c' \<and> length (nucleotides c') = L"
    by (simp add: Genom_crossover_inplace_def)
next
  fix c' assume "Genom_crossover_inplace P a b c n = Inr c'"
  then show "length (nucleotides c') = length (nucleotides a)"
    by (auto simp: Genom_crossover_inplace_def Let_def resize_length
        split: sum.splits dest!: crossover_range_length)
next
  assume "m < length (nucleotides g)"
  then show "\<exists>g' rg'. Genom_mutate P m rg g = Inr (g', rg') \<and>
         length (nucleotides g') = length (nucleotides g)"
    by (simp add: Genom_mutate_def split: prod.splits)
qed

theorem length_invariant_witness:
  "length (nucleotides (fst (Genom_random (test_params []) 2 [3, 7]))) = 2 \<and>
   (\<exists>c'. Genom_crossover_inplace (test_params [])
           \<lparr>nucleotides = [1, 2], scorer = \<lparr>score = Finite 0\<rparr>\<rparr>
           \<lparr>nucleotides = [5, - 4], scorer = \<lparr>score = Finite 0\<rparr>\<rparr>
           \<lparr>nucleotides = [], scorer = \<lparr>score = Finite 0\<rparr>\<rparr> 1 = Inr c' \<and>
         length (nucleotides c') = 2) \<and>
   (\<exists>g' rg'. Genom_mutate (test_params []) 1 [3, 7] \<lparr>nucleotides = [1, 2], scorer = \<lparr>score = Finite 0\<rparr>\<rparr>
                 = Inr (g', rg') \<and> length (nucleotides g') = 2)"
  using length_invariant [where P = "test_params []" and L = 2 and rg = "[3, 7]"
      and a = "\<lparr>nucleotides = [1, 2], scorer = \<lparr>score = Finite 0\<rparr>\<rparr>"
      and b = "\<lparr>nucleotides = [5, - 4], scorer = \<lparr>score = Finite 0\<rparr>\<rparr>" and n = 1
      and c = "\<lparr>nucleotides = [], scorer = \<lparr>score = Finite 0\<rparr>\<rparr>" and m = 1
      and g = "\<lparr>nucleotides = [1, 2], scorer = \<lparr>score = Finite 0\<rparr>\<rparr>"]
  by (simp add: eval_nat_numeral)

text \<open>
  Claim C6 (single-point crossover). For parents \<open>a\<close> and \<open>b\<close> of one length \<open>len\<close>
  and a point \<open>n \<le> len\<close>, \<^verbatim>\<open>Genom::crossover_inplace(a, b, out, n)\<close> returns; the child
  has length \<open>len\<close> and the scorer of \<open>out\<close>; position \<open>i < n\<close> holds
  \<^verbatim>\<open>N::crossover_inplace(a[i], b[i], out[i])\<close> and position \<open>i\<close> in \<open>[n, len)\<close> holds
  \<^verbatim>\<open>N::crossover_inplace(b[i], a[i], out[i])\<close>, the parents swapped; \<open>out[i]\<close> is the
  slot after the resize to \<open>len\<close>.
\<close>

theorem crossover_inplace_pointwise:
  assumes "length (nucleotides a) = len" and "length (nucleotides b) = len" and "n \<le> len"
  shows "\<exists>c'. Genom_crossover_inplace P a b out n = Inr c' \<and>
           length (nucleotides c') = len \<and> scorer c' = scorer out \<and>
           (\<forall>i. i < n \<longrightarrow> nucleotides c' ! i =
                  N_crossover_inplace P (nucleotides a ! i) (nucleotides b ! i)
                    (resize len (N_default P) (nucleotides out) ! i)) \<and>
           (\<forall>i. n \<le> i \<and> i < len \<longrightarrow> nucleotides c' ! i =
                  N_crossover_inplace P (nucleotides b ! i) (nucleotides a ! i)
                    (resize len (N_default P) (nucleotides out) ! i))"
proof -
  let ?c0 = "resize len (N_default P) (nucleotides out)"
  have l0: "length ?c0 = len" by (rule resize_length)
  from assms l0 obtain c1 where c1:
    "crossover_range P (nucleotides a) (nucleotides b) 0 n ?c0 = Inr c1" "length c1 = len"
    "\<forall>k < len. c1 ! k =
       (if 0 \<le> k \<and> k < n
        then N_crossover_inplace P (nucleotides a ! k) (nucleotides b ! k) (?c0 ! k)
        else ?c0 ! k)"
    using crossover_range_ok [of n "nucleotides a" "nucleotides b" ?c0 P 0]
    by auto
  from assms c1(2) obtain c2 where c2:
    "crossover_range P (nucleotides b) (nucleotides a) n len c1 = Inr c2" "length c2 = len"
    "\<forall>k < len. c2 ! k =
       (if n \<le> k \<and> k < len
        then N_crossover_inplace P (nucleotides b ! k) (nucleotides a ! k) (c1 ! k)
        else c1 ! k)"
    using crossover_range_ok [of len "nucleotides b" "nucleotides a" c1 P n]
    by auto
  have res: "Genom_crossover_inplace P a b out n = Inr (out\<lparr>nucleotides := c2\<rparr>)"
    using assms(1) c1(1) c2(1) by (simp add: Genom_crossover_inplace_def)
  have lo: "\<forall>i. i < n \<longrightarrow> c2 ! i =
      N_crossover_inplace P (nucleotides a ! i) (nucleotides b ! i) (?c0 ! i)"
    using c1(3) c2(3) assms(3) by auto
  have hi: "\<forall>i. n \<le> i \<and> i < len \<longrightarrow> c2 ! i =
      N_crossover_inplace P (nucleotides b ! i) (nucleotides a ! i) (?c0 ! i)"
    using c1(3) c2(3) by auto
  from res c2(2) lo hi show ?thesis by simp
qed

theorem crossover_inplace_pointwise_witness:
  "\<exists>c'. Genom_crossover_inplace (test_params [])
           \<lparr>nucleotides = [1, 2, 9], scorer = \<lparr>score = Finite 0\<rparr>\<rparr>
           \<lparr>nucleotides = [5, - 4, 0], scorer = \<lparr>score = Finite 0\<rparr>\<rparr>
           \<lparr>nucleotides = [7], scorer = \<lparr>score = Finite 3\<rparr>\<rparr> 1 = Inr c' \<and>
         length (nucleotides c') = 3 \<and> scorer c' = \<lparr>score = Finite 3\<rparr> \<and>
         nucleotides c' ! 0 = IntNucl_crossover_inplace 1 5 7 \<and>
         nucleotides c' ! 1 = IntNucl_crossover_inplace (- 4) 2 0 \<and>
         nucleotides c' ! 2 = IntNucl_crossover_inplace 0 9 0"
proof -
  obtain c' where c': "Genom_crossover_inplace (test_params [])
           \<lparr>nucleotides = [1, 2, 9], scorer = \<lparr>score = Finite 0\<rparr>\<rparr>
           \<lparr>nucleotides = [5, - 4, 0], scorer = \<lparr>score = Finite 0\<rparr>\<rparr>
           \<lparr>nucleotides = [7], scorer = \<lparr>score = Finite 3\<rparr>\<rparr> 1 = Inr c'"
    "length (nucleotides c') = 3" "scorer c' = \<lparr>score = Finite 3\<rparr>"
    "\<forall>i. i < 1 \<longrightarrow> nucleotides c' ! i =
        N_crossover_inplace (test_params []) ([1, 2, 9] ! i) ([5, - 4, 0] ! i)
          (resize 3 (N_default (test_params [])) [7] ! i)"
    "\<forall>i. 1 \<le> i \<and> i < 3 \<longrightarrow> nucleotides c' ! i =
        N_crossover_inplace (test_params []) ([5, - 4, 0] ! i) ([1, 2, 9] ! i)
          (resize 3 (N_default (test_params [])) [7] ! i)"
    using crossover_inplace_pointwise [of
        "\<lparr>nucleotides = [1, 2, 9], scorer = \<lparr>score = Finite 0\<rparr>\<rparr>" 3
        "\<lparr>nucleotides = [5, - 4, 0], scorer = \<lparr>score = Finite 0\<rparr>\<rparr>" 1
        "test_params []" "\<lparr>nucleotides = [7], scorer = \<lparr>score = Finite 3\<rparr>\<rparr>"]
    by auto
  from c'(4) have "nucleotides c' ! 0 = IntNucl_crossover_inplace 1 5 7"
    by (simp add: test_params_def resize_def)
  moreover from c'(5) have "nucleotides c' ! 1 = IntNucl_crossover_inplace (- 4) 2 0"
    by (simp add: test_params_def resize_def)
  moreover from c'(5) have "nucleotides c' ! 2 = IntNucl_crossover_inplace 0 9 0"
    by (simp add: test_params_def resize_def)
  ultimately show ?thesis using c'(1-3) by simp
qed

lemma crossover_range_empty: "crossover_range P xs ys hi hi c = Inr c"
  by (simp add: crossover_range.simps)

text \<open>
  Claim C7 (crossover boundary). For parents of equal length, the crossover of
  \<open>(a, b)\<close> at point \<open>0\<close> and the crossover of \<open>(b, a)\<close> at point \<open>len\<close> both return,
  with the same child.
\<close>

theorem crossover_boundary:
  assumes "length (nucleotides a) = length (nucleotides b)"
  shows "\<exists>c'. Genom_crossover_inplace P a b out 0 = Inr c' \<and>
           Genom_crossover_inplace P b a out (length (nucleotides a)) = Inr c'"
proof -
  let ?len = "length (nucleotides a)"
  let ?c0 = "resize ?len (N_default P) (nucleotides out)"
  obtain c1 where c1: "crossover_range P (nucleotides b) (nucleotides a) 0 ?len ?c0 = Inr c1"
    using crossover_range_ok [of ?len "nucleotides b" "nucleotides a" ?c0 P 0] assms
    by (auto simp: resize_length)
  have "Genom_crossover_inplace P a b out 0 = Inr (out\<lparr>nucleotides := c1\<rparr>)"
    using c1 by (simp add: Genom_crossover_inplace_def crossover_range_empty)
  moreover have "Genom_crossover_inplace P b a out ?len = Inr (out\<lparr>nucleotides := c1\<rparr>)"
    using c1 assms by (simp add: Genom_crossover_inplace_def crossover_range_empty)
  ultimately show ?thesis by simp
qed

theorem crossover_boundary_witness:
  "\<exists>c'. Genom_crossover_inplace (test_params [])
           \<lparr>nucleotides = [1, 2], scorer = \<lparr>score = Finite 0\<rparr>\<rparr>
           \<lparr>nucleotides = [5, - 4], scorer = \<lparr>score = Finite 0\<rparr>\<rparr>
           \<lparr>nucleotides = [], scorer = \<lparr>score = Finite 0\<rparr>\<rparr> 0 = Inr c' \<and>
        Genom_crossover_inplace (test_params [])
           \<lparr>nucleotides = [5, - 4], scorer = \<lparr>score = Finite 0\<rparr>\<rparr>
           \<lparr>nucleotides = [1, 2], scorer = \<lparr>score = Finite 0\<rparr>\<rparr>
           \<lparr>nucleotides = [], scorer = \<lparr>score = Finite 0\<rparr>\<rparr> 2 = Inr c'"
  using crossover_boundary [of "\<lparr>nucleotides = [1, 2], scorer = \<lparr>score = Finite 0\<rparr>\<rparr>"
      "\<lparr>nucleotides = [5, - 4], scorer = \<lparr>score = Finite 0\<rparr>\<rparr>" "test_params []"
      "\<lparr>nucleotides = [], scorer = \<lparr>score = Finite 0\<rparr>\<rparr>"]
  by (simp add: eval_nat_numeral)

text \<open>
  Claim C8 (shift). On a Genom of at least one nucleotide, \<^verbatim>\<open>shift(1)\<close> applied
  \<open>len\<close> times returns the Genom as it was. A \<^verbatim>\<open>shift(n)\<close> with \<open>n \<le> len\<close> returns;
  afterwards position \<open>i\<close> holds what was at \<open>(i + n) mod len\<close>, and the scorer is
  unchanged.
\<close>

theorem shift_correctness:
  assumes "1 \<le> length (nucleotides g)"
  shows "Genom_shift_times (length (nucleotides g)) 1 g = Inr g \<and>
         (n \<le> length (nucleotides g) \<longrightarrow>
            (\<exists>g'. Genom_shift n g = Inr g' \<and> scorer g' = scorer g \<and>
               length (nucleotides g') = length (nucleotides g) \<and>
               (\<forall>i. i < length (nucleotides g) \<longrightarrow>
                  nucleotides g' ! i = nucleotides g ! ((i + n) mod length (nucleotides g)))))"
proof
  from assms have "0 < length (nucleotides g)" by auto
  from Genom_shift_times_rotate [OF this, of "length (nucleotides g)"]
  show "Genom_shift_times (length (nucleotides g)) 1 g = Inr g" by simp
next
  show "n \<le> length (nucleotides g) \<longrightarrow>
            (\<exists>g'. Genom_shift n g = Inr g' \<and> scorer g' = scorer g \<and>
               length (nucleotides g') = length (nucleotides g) \<and>
               (\<forall>i. i < length (nucleotides g) \<longrightarrow>
                  nucleotides g' ! i = nucleotides g ! ((i + n) mod length (nucleotides g))))"
    using Genom_shift_ok [of n g] by auto
qed

theorem shift_correctness_witness:
  "Genom_shift_times 3 1 \<lparr>nucleotides = [1, 2, 3 :: int], scorer = \<lparr>score = Finite 4\<rparr>\<rparr>
     = Inr \<lparr>nucleotides = [1, 2, 3], scorer = \<lparr>score = Finite 4\<rparr>\<rparr> \<and>
   Genom_shift 1 \<lparr>nucleotides = [1, 2, 3 :: int], scorer = \<lparr>score = Finite 4\<rparr>\<rparr>
     = Inr \<lparr>nucleotides = [2, 3, 1], scorer = \<lparr>score = Finite 4\<rparr>\<rparr>"
proof -
  let ?g = "\<lparr>nucleotides = [1, 2, 3 :: int], scorer = \<lparr>score = Finite 4\<rparr>\<rparr>"
  have len: "length (nucleotides ?g) = 3" by simp
  have "1 \<le> length (nucleotides ?g)" by simp
  from shift_correctness [OF this, of 1]
  have "Genom_shift_times (length (nucleotides ?g)) 1 ?g = Inr ?g" by blast
  then have "Genom_shift_times 3 1 ?g = Inr ?g" by (simp only: len)
  then show ?thesis by (simp add: Genom_shift_def)
qed

subsection \<open>GenePool\<close>

lemma float_less_irrefl: "\<not> float_less a a"
  by (cases a) simp_all

lemma float_less_trans: "float_less a b \<Longrightarrow> float_less b c \<Longrightarrow> float_less a c"
  by (cases a; cases b; cases c) simp_all

lemma float_less_asym: "float_less a b \<Longrightarrow> \<not> float_less b a"
  by (cases a; cases b) simp_all

lemma float_not_less_iff: "a \<noteq> NaN \<Longrightarrow> b \<noteq> NaN \<Longrightarrow> (\<not> float_less a b) = float_le b a"
  by (cases a; cases b) auto

lemma float_le_refl: "a \<noteq> NaN \<Longrightarrow> float_le a a"
  by (cases a) simp_all

lemma float_negtrans:
  "a \<noteq> NaN \<Longrightarrow> b \<noteq> NaN \<Longrightarrow> c \<noteq> NaN \<Longrightarrow>
   \<not> float_less a b \<Longrightarrow> \<not> float_less b c \<Longrightarrow> \<not> float_less a c"
  by (cases a; cases b; cases c) simp_all

lemma mset_insert_by: "mset (insert_by lt x xs) = add_mset x (mset xs)"
  by (induction xs) simp_all

lemma mset_std_sort: "mset (std_sort lt xs) = mset xs"
  by (induction xs) (simp_all add: mset_insert_by)

lemma set_std_sort: "set (std_sort lt xs) = set xs"
  using mset_std_sort [of lt xs] by (rule mset_eq_setD)

lemma insert_by_sorted:
  assumes "Genom_score P x \<noteq> NaN" and "\<forall>g \<in> set ys. Genom_score P g \<noteq> NaN"
    and "sorted_wrt (\<lambda>a b. \<not> Genom_less P b a) ys"
  shows "sorted_wrt (\<lambda>a b. \<not> Genom_less P b a) (insert_by (Genom_less P) x ys)"
  using assms(2,3)
proof (induction ys)
  case Nil
  then show ?case by simp
next
  case (Cons y ys)
  from Cons.prems(1) have y: "Genom_score P y \<noteq> NaN" by simp
  show ?case
  proof (cases "Genom_less P y x")
    case True
    then have "\<not> Genom_less P x y"
      by (simp add: Genom_less_def float_less_asym)
    moreover from Cons have "sorted_wrt (\<lambda>a b. \<not> Genom_less P b a) (insert_by (Genom_less P) x ys)"
      by simp
    moreover have "set (insert_by (Genom_less P) x ys) = insert x (set ys)"
      using mset_insert_by [of "Genom_less P" x ys] by (metis mset_eq_setD set_mset_add_mset_insert set_mset_mset)
    ultimately show ?thesis using True Cons.prems(2) by simp
  next
    case False
    have "\<not> Genom_less P z x" if z: "z \<in> set ys" for z
    proof -
      from z Cons.prems(1) have zn: "Genom_score P z \<noteq> NaN" by simp
      from z Cons.prems(2) have "\<not> Genom_less P z y" by simp
      with False zn y assms(1) show ?thesis
        unfolding Genom_less_def Genom_score_def by (metis float_negtrans)
    qed
    with False Cons.prems(2) show ?thesis by simp
  qed
qed

lemma std_sort_sorted:
  "\<forall>g \<in> set xs. Genom_score P g \<noteq> NaN \<Longrightarrow>
   sorted_wrt (\<lambda>a b. \<not> Genom_less P b a) (std_sort (Genom_less P) xs)"
proof (induction xs)
  case Nil
  then show ?case by simp
next
  case (Cons x xs)
  then have "\<forall>g \<in> set (std_sort (Genom_less P) xs). Genom_score P g \<noteq> NaN"
    by (simp add: set_std_sort)
  with Cons show ?case by (simp add: insert_by_sorted)
qed

lemma strict_weak_ordering_no_NaN:
  assumes "\<forall>g \<in> set gs. Genom_score P g \<noteq> NaN"
  shows "strict_weak_ordering_on (Genom_less P) gs"
  unfolding strict_weak_ordering_on_def list_all_iff
proof (intro conjI ballI)
  fix a assume "a \<in> set gs"
  show "\<not> Genom_less P a a" by (simp add: Genom_less_def float_less_irrefl)
next
  fix a b c assume "a \<in> set gs" "b \<in> set gs" "c \<in> set gs"
  with assms have n: "Genom_score P a \<noteq> NaN" "Genom_score P b \<noteq> NaN" "Genom_score P c \<noteq> NaN"
    by simp_all
  show "\<not> (Genom_less P a b \<and> Genom_less P b c \<and> \<not> Genom_less P a c)"
    unfolding Genom_less_def by (metis float_less_trans)
  show "\<not> (\<not> Genom_less P a b \<and> \<not> Genom_less P b a \<and> \<not> Genom_less P b c \<and>
      \<not> Genom_less P c b \<and> (Genom_less P a c \<or> Genom_less P c a))"
    using n unfolding Genom_less_def Genom_score_def by (metis float_negtrans)
qed

lemma simulate_no_NaN:
  assumes "\<forall>g \<in> set (genoms s). Genom_score P (simulator g) \<noteq> NaN"
  shows "GenePool_simulate P simulator s =
           Inr (s\<lparr>genoms := rev (std_sort (Genom_less P) (rev (map simulator (genoms s)))),
                   generation := (generation s + 1) mod 2 ^ 64\<rparr>)"
proof -
  from assms have "\<forall>g \<in> set (map simulator (genoms s)). Genom_score P g \<noteq> NaN" by simp
  then have "strict_weak_ordering_on (Genom_less P) (map simulator (genoms s))"
    by (rule strict_weak_ordering_no_NaN)
  then show ?thesis by (simp add: GenePool_simulate_def)
qed

text \<open>
  Claim C1 (sort invariant), as the code has it. When the simulator gives no Genom of
  the population the score NaN, \<^verbatim>\<open>simulate\<close> returns, and the population is then in
  descending order of score: each Genom scores at most as much as the one before it.
  The population is a rearrangement of the simulated Genoms. When the population is
  not empty, \<^verbatim>\<open>best()\<close> returns the first Genom, and no member scores more.
\<close>

theorem simulate_sorted_descending:
  assumes "\<forall>g \<in> set (genoms s). Genom_score P (simulator g) \<noteq> NaN"
  shows "\<exists>s'. GenePool_simulate P simulator s = Inr s' \<and>
           (\<forall>i. Suc i < length (genoms s') \<longrightarrow>
              float_le (Genom_score P (genoms s' ! Suc i)) (Genom_score P (genoms s' ! i))) \<and>
           mset (genoms s') = mset (map simulator (genoms s)) \<and>
           (genoms s \<noteq> [] \<longrightarrow>
              GenePool_best s' = Inr (genoms s' ! 0) \<and>
              (\<forall>g. g \<in> set (genoms s') \<longrightarrow>
                 float_le (Genom_score P g) (Genom_score P (genoms s' ! 0))))"
proof -
  define v where "v = rev (std_sort (Genom_less P) (rev (map simulator (genoms s))))"
  let ?s' = "s\<lparr>genoms := v, generation := (generation s + 1) mod 2 ^ 64\<rparr>"
  have res: "GenePool_simulate P simulator s = Inr ?s'"
    unfolding v_def using assms by (rule simulate_no_NaN)
  have gs: "genoms ?s' = v" by simp
  have ms: "mset v = mset (map simulator (genoms s))"
    by (simp add: v_def mset_std_sort)
  then have "set v = set (map simulator (genoms s))" by (rule mset_eq_setD)
  with assms have nn: "\<forall>g \<in> set v. Genom_score P g \<noteq> NaN" by simp
  from assms have "\<forall>g \<in> set (rev (map simulator (genoms s))). Genom_score P g \<noteq> NaN"
    by simp
  then have "sorted_wrt (\<lambda>a b. \<not> Genom_less P b a)
      (std_sort (Genom_less P) (rev (map simulator (genoms s))))"
    by (rule std_sort_sorted)
  then have srt: "sorted_wrt (\<lambda>a b. \<not> Genom_less P a b) v"
    by (simp add: v_def sorted_wrt_rev)
  have pair: "float_le (Genom_score P (v ! j)) (Genom_score P (v ! i))"
    if "i < j" "j < length v" for i j
  proof -
    from srt that have "\<not> Genom_less P (v ! i) (v ! j)"
      by (rule sorted_wrt_nth_less)
    moreover from that have "i < length v" by simp
    then have "v ! i \<in> set v" by (rule nth_mem)
    with nn have "Genom_score P (v ! i) \<noteq> NaN" by blast
    moreover from that(2) have "v ! j \<in> set v" by (rule nth_mem)
    with nn have "Genom_score P (v ! j) \<noteq> NaN" by blast
    ultimately show ?thesis
      by (simp add: Genom_less_def Genom_score_def float_not_less_iff)
  qed
  have adj: "\<forall>i. Suc i < length v \<longrightarrow>
      float_le (Genom_score P (v ! Suc i)) (Genom_score P (v ! i))"
    using pair by simp
  have best: "GenePool_best ?s' = Inr (v ! 0) \<and>
      (\<forall>g. g \<in> set v \<longrightarrow> float_le (Genom_score P g) (Genom_score P (v ! 0)))"
    if ne: "genoms s \<noteq> []"
  proof
    from ms have "size (mset v) = size (mset (map simulator (genoms s)))" by simp
    with ne have len: "0 < length v" by simp
    then show "GenePool_best ?s' = Inr (v ! 0)"
      by (simp add: GenePool_best_def)
    show "\<forall>g. g \<in> set v \<longrightarrow> float_le (Genom_score P g) (Genom_score P (v ! 0))"
    proof (intro allI impI)
      fix g assume g: "g \<in> set v"
      then obtain k where k: "k < length v" "v ! k = g"
        by (auto simp: in_set_conv_nth)
      show "float_le (Genom_score P g) (Genom_score P (v ! 0))"
      proof (cases k)
        case 0
        with k g nn show ?thesis by (simp add: float_le_refl)
      next
        case (Suc k')
        with k pair [of 0 k] show ?thesis by simp
      qed
    qed
  qed
  from best have best': "genoms s \<noteq> [] \<longrightarrow>
      GenePool_best ?s' = Inr (v ! 0) \<and>
      (\<forall>g. g \<in> set v \<longrightarrow> float_le (Genom_score P g) (Genom_score P (v ! 0)))"
    by blast
  show ?thesis
    unfolding res
    using adj ms best' by (intro exI [of _ ?s']) (simp only: gs sum.inject simp_thms)
qed

theorem simulate_sorted_descending_witness:
  "\<exists>s'. GenePool_simulate (test_params []) (Simulator_simulate 6)
           \<lparr>n_genoms = 3, take_count = 1, retain = 0,
            genoms = [\<lparr>nucleotides = [1, 2], scorer = \<lparr>score = Finite 0\<rparr>\<rparr>,
                      \<lparr>nucleotides = [5, 1], scorer = \<lparr>score = Finite 0\<rparr>\<rparr>,
                      \<lparr>nucleotides = [4, 0], scorer = \<lparr>score = Finite 0\<rparr>\<rparr>],
            rng = [], distr = \<lparr>dist_a = 0, dist_b = 2\<rparr>, generation = 0,
            shuffle_indices = [0, 1, 2], next_generation = []\<rparr> = Inr s' \<and>
         GenePool_best s' = Inr (genoms s' ! 0) \<and>
         (\<forall>i. Suc i < length (genoms s') \<longrightarrow>
            float_le (Genom_score (test_params []) (genoms s' ! Suc i))
              (Genom_score (test_params []) (genoms s' ! i)))"
proof -
  let ?s = "\<lparr>n_genoms = 3, take_count = 1, retain = 0,
            genoms = [\<lparr>nucleotides = [1, 2], scorer = \<lparr>score = Finite 0\<rparr>\<rparr>,
                      \<lparr>nucleotides = [5, 1], scorer = \<lparr>score = Finite 0\<rparr>\<rparr>,
                      \<lparr>nucleotides = [4, 0], scorer = \<lparr>score = Finite 0\<rparr>\<rparr>],
            rng = [] :: nat list, distr = \<lparr>dist_a = 0, dist_b = 2\<rparr>, generation = 0,
            shuffle_indices = [0, 1, 2], next_generation = []\<rparr>"
  have "list_all (\<lambda>g. Genom_score (test_params []) (Simulator_simulate 6 g) \<noteq> NaN)
      [\<lparr>nucleotides = [1, 2], scorer = \<lparr>score = Finite 0\<rparr>\<rparr>,
       \<lparr>nucleotides = [5, 1], scorer = \<lparr>score = Finite 0\<rparr>\<rparr>,
       \<lparr>nucleotides = [4, 0], scorer = \<lparr>score = Finite 0\<rparr>\<rparr>]"
    by code_simp
  then have h: "\<forall>g \<in> set (genoms ?s). Genom_score (test_params []) (Simulator_simulate 6 g) \<noteq> NaN"
    by (simp only: list_all_iff GenePool.simps)
  have ne: "genoms ?s \<noteq> []" by simp
  from simulate_sorted_descending [OF h] ne show ?thesis by blast
qed

text \<open>
  Claim C1 as stated fails for a simulator that assigns NaN. The simulator
  \<open>quotient_simulate\<close> scores a Genom of value \<open>v\<close> with \<^verbatim>\<open>float(v * v) / float(v)\<close>,
  which is NaN for \<open>v = 0\<close>. On a population of the two Genoms \<open>[3]\<close> and \<open>[0]\<close>,
  \<^verbatim>\<open>simulate\<close> returns with the scores \<open>3\<close> and NaN in this order, and
  \<^verbatim>\<open>3 >= NaN\<close> is false. On the three Genoms \<open>[3]\<close>, \<open>[0]\<close> and \<open>[8]\<close> the comparison
  is no strict weak ordering (\<open>3\<close> and \<open>8\<close> are both incomparable with NaN and not with
  each other), and the sort is undefined.
\<close>

theorem simulate_sorted_descending_counterexample:
  "GenePool_simulate (test_params []) quotient_simulate
      \<lparr>n_genoms = 2, take_count = 1, retain = 0,
       genoms = [\<lparr>nucleotides = [3], scorer = \<lparr>score = Finite 0\<rparr>\<rparr>,
                 \<lparr>nucleotides = [0], scorer = \<lparr>score = Finite 0\<rparr>\<rparr>],
       rng = [], distr = \<lparr>dist_a = 0, dist_b = 1\<rparr>, generation = 0,
       shuffle_indices = [0, 1], next_generation = []\<rparr> =
     Inr \<lparr>n_genoms = 2, take_count = 1, retain = 0,
          genoms = [\<lparr>nucleotides = [3], scorer = \<lparr>score = Finite 3\<rparr>\<rparr>,
                    \<lparr>nucleotides = [0], scorer = \<lparr>score = NaN\<rparr>\<rparr>],
          rng = [], distr = \<lparr>dist_a = 0, dist_b = 1\<rparr>, generation = 1,
          shuffle_indices = [0, 1], next_generation = []\<rparr> \<and>
   \<not> float_le (Genom_score (test_params []) \<lparr>nucleotides = [0], scorer = \<lparr>score = NaN\<rparr>\<rparr>)
        (Genom_score (test_params []) \<lparr>nucleotides = [3], scorer = \<lparr>score = Finite 3\<rparr>\<rparr>) \<and>
   GenePool_simulate (test_params []) quotient_simulate
      \<lparr>n_genoms = 3, take_count = 1, retain = 0,
       genoms = [\<lparr>nucleotides = [3], scorer = \<lparr>score = Finite 0\<rparr>\<rparr>,
                 \<lparr>nucleotides = [0], scorer = \<lparr>score = Finite 0\<rparr>\<rparr>,
                 \<lparr>nucleotides = [8], scorer = \<lparr>score = Finite 0\<rparr>\<rparr>],
       rng = [], distr = \<lparr>dist_a = 0, dist_b = 1\<rparr>, generation = 0,
       shuffle_indices = [0, 1, 2], next_generation = []\<rparr> = Inl NoStrictWeakOrdering"
proof (intro conjI)
  have sw: "strict_weak_ordering_on (Genom_less (test_params []))
      (map quotient_simulate [\<lparr>nucleotides = [3], scorer = \<lparr>score = Finite 0\<rparr>\<rparr>,
                              \<lparr>nucleotides = [0], scorer = \<lparr>score = Finite 0\<rparr>\<rparr>])"
    by code_simp
  have so: "rev (std_sort (Genom_less (test_params []))
      (rev (map quotient_simulate [\<lparr>nucleotides = [3], scorer = \<lparr>score = Finite 0\<rparr>\<rparr>,
                                   \<lparr>nucleotides = [0], scorer = \<lparr>score = Finite 0\<rparr>\<rparr>]))) =
      [\<lparr>nucleotides = [3], scorer = \<lparr>score = Finite 3\<rparr>\<rparr>,
       \<lparr>nucleotides = [0], scorer = \<lparr>score = NaN\<rparr>\<rparr>]"
    by code_simp
  show "GenePool_simulate (test_params []) quotient_simulate
      \<lparr>n_genoms = 2, take_count = 1, retain = 0,
       genoms = [\<lparr>nucleotides = [3], scorer = \<lparr>score = Finite 0\<rparr>\<rparr>,
                 \<lparr>nucleotides = [0], scorer = \<lparr>score = Finite 0\<rparr>\<rparr>],
       rng = [], distr = \<lparr>dist_a = 0, dist_b = 1\<rparr>, generation = 0,
       shuffle_indices = [0, 1], next_generation = []\<rparr> =
     Inr \<lparr>n_genoms = 2, take_count = 1, retain = 0,
          genoms = [\<lparr>nucleotides = [3], scorer = \<lparr>score = Finite 3\<rparr>\<rparr>,
                    \<lparr>nucleotides = [0], scorer = \<lparr>score = NaN\<rparr>\<rparr>],
          rng = [], distr = \<lparr>dist_a = 0, dist_b = 1\<rparr>, generation = 1,
          shuffle_indices = [0, 1], next_generation = []\<rparr>"
    by (simp add: GenePool_simulate_def Let_def sw [simplified] so [simplified])
  show "\<not> float_le (Genom_score (test_params []) \<lparr>nucleotides = [0], scorer = \<lparr>score = NaN\<rparr>\<rparr>)
        (Genom_score (test_params []) \<lparr>nucleotides = [3], scorer = \<lparr>score = Finite 3\<rparr>\<rparr>)"
    by (simp add: Genom_score_def test_params_def)
  have nsw: "\<not> strict_weak_ordering_on (Genom_less (test_params []))
      (map quotient_simulate [\<lparr>nucleotides = [3], scorer = \<lparr>score = Finite 0\<rparr>\<rparr>,
                              \<lparr>nucleotides = [0], scorer = \<lparr>score = Finite 0\<rparr>\<rparr>,
                              \<lparr>nucleotides = [8], scorer = \<lparr>score = Finite 0\<rparr>\<rparr>])"
    by code_simp
  show "GenePool_simulate (test_params []) quotient_simulate
      \<lparr>n_genoms = 3, take_count = 1, retain = 0,
       genoms = [\<lparr>nucleotides = [3], scorer = \<lparr>score = Finite 0\<rparr>\<rparr>,
                 \<lparr>nucleotides = [0], scorer = \<lparr>score = Finite 0\<rparr>\<rparr>,
                 \<lparr>nucleotides = [8], scorer = \<lparr>score = Finite 0\<rparr>\<rparr>],
       rng = [], distr = \<lparr>dist_a = 0, dist_b = 1\<rparr>, generation = 0,
       shuffle_indices = [0, 1, 2], next_generation = []\<rparr> = Inl NoStrictWeakOrdering"
    by (simp add: GenePool_simulate_def Let_def nsw [simplified])
qed


lemma select_mating_pool_retain:
  "select_mating_pool P (s\<lparr>retain := r\<rparr>) =
     map_sum id (\<lambda>s'. s'\<lparr>retain := r\<rparr>) (select_mating_pool P s)"
  by (simp add: select_mating_pool_def split: sum.split prod.split)

lemma select_breed_retain:
  "select_breed P (s\<lparr>retain := r\<rparr>) =
     map_sum id (\<lambda>(s', calls). (s'\<lparr>retain := r\<rparr>, calls)) (select_breed P s)"
  by (simp add: select_breed_def select_mating_pool_retain Let_def
      split: sum.split prod.split)

lemma select_mutate_swap_retain:
  "select_mutate_swap P (s\<lparr>retain := r\<rparr>) =
     map_sum id (\<lambda>s'. s'\<lparr>retain := r\<rparr>) (select_mutate_swap P s)"
  by (simp add: select_mutate_swap_def split: sum.split prod.split)

lemma GenePool_select_retain:
  "GenePool_select P (s\<lparr>retain := r\<rparr>)
     = map_sum id (\<lambda>s'. s'\<lparr>retain := r\<rparr>) (GenePool_select P s)"
  by (simp add: GenePool_select_def select_breed_retain select_mutate_swap_retain
      split: sum.split prod.split)

text \<open>
  Claim C9 (\<^verbatim>\<open>retain\<close> is never read). Changing the value of \<^verbatim>\<open>retain\<close> in a pool
  changes nothing but the value of \<^verbatim>\<open>retain\<close> in the pool that \<^verbatim>\<open>simulate\<close>,
  \<^verbatim>\<open>select\<close>, \<^verbatim>\<open>shift\<close> or \<^verbatim>\<open>reset\<close> leaves (and not whether they return), and
  changes neither the result of \<^verbatim>\<open>best\<close> nor that of \<^verbatim>\<open>generations\<close>.
\<close>

theorem retain_noninterference:
  "GenePool_simulate P simulator (s\<lparr>retain := r\<rparr>)
     = map_sum id (\<lambda>s'. s'\<lparr>retain := r\<rparr>) (GenePool_simulate P simulator s) \<and>
   GenePool_select P (s\<lparr>retain := r\<rparr>)
     = map_sum id (\<lambda>s'. s'\<lparr>retain := r\<rparr>) (GenePool_select P s) \<and>
   GenePool_shift n (s\<lparr>retain := r\<rparr>)
     = map_sum id (\<lambda>s'. s'\<lparr>retain := r\<rparr>) (GenePool_shift n s) \<and>
   GenePool_reset (s\<lparr>retain := r\<rparr>) = (GenePool_reset s)\<lparr>retain := r\<rparr> \<and>
   GenePool_best (s\<lparr>retain := r\<rparr>) = GenePool_best s \<and>
   GenePool_generations (s\<lparr>retain := r\<rparr>) = GenePool_generations s"
proof (intro conjI)
  show "GenePool_simulate P simulator (s\<lparr>retain := r\<rparr>)
     = map_sum id (\<lambda>s'. s'\<lparr>retain := r\<rparr>) (GenePool_simulate P simulator s)"
    by (simp add: GenePool_simulate_def Let_def)
  show "GenePool_select P (s\<lparr>retain := r\<rparr>)
     = map_sum id (\<lambda>s'. s'\<lparr>retain := r\<rparr>) (GenePool_select P s)"
    by (rule GenePool_select_retain)
  show "GenePool_shift n (s\<lparr>retain := r\<rparr>)
     = map_sum id (\<lambda>s'. s'\<lparr>retain := r\<rparr>) (GenePool_shift n s)"
    by (simp add: GenePool_shift_def split: sum.split)
  show "GenePool_reset (s\<lparr>retain := r\<rparr>) = (GenePool_reset s)\<lparr>retain := r\<rparr>"
    by (simp add: GenePool_reset_def)
  show "GenePool_best (s\<lparr>retain := r\<rparr>) = GenePool_best s"
    by (simp add: GenePool_best_def)
  show "GenePool_generations (s\<lparr>retain := r\<rparr>) = GenePool_generations s"
    by (simp add: GenePool_generations_def)
qed

text \<open>
  Claim C2 (mutation index in range) fails on the code. A pool of two Genoms of one
  nucleotide, elite fraction one half; the replay engine hands out
  \<open>0, 0, 0, 0, 1\<close>. The constructor uses two numbers; the breeding part of
  \<^verbatim>\<open>select\<close> uses two for the crossover points; the draw \<^verbatim>\<open>distr(rng)\<close> of the
  mutation loop is then \<open>1\<close>, the length of the Genom, and \<^verbatim>\<open>nucleotides[1]\<close> is outside
  the vector.
\<close>

theorem select_mutation_out_of_range:
  "GenePool_new (test_params [0, 0, 0, 0, 1]) test_platform 2 1 (Finite (1 / 2)) =
     Inr \<lparr>n_genoms = 2, take_count = 1, retain = 0,
          genoms = [\<lparr>nucleotides = [- 5], scorer = \<lparr>score = Finite 0\<rparr>\<rparr>,
                    \<lparr>nucleotides = [- 5], scorer = \<lparr>score = Finite 0\<rparr>\<rparr>],
          rng = [0, 0, 1], distr = \<lparr>dist_a = 0, dist_b = 1\<rparr>, generation = 0,
          shuffle_indices = [0, 1], next_generation = []\<rparr> \<and>
   select_breed (test_params [0, 0, 0, 0, 1])
     \<lparr>n_genoms = 2, take_count = 1, retain = 0,
      genoms = [\<lparr>nucleotides = [- 5], scorer = \<lparr>score = Finite 0\<rparr>\<rparr>,
                \<lparr>nucleotides = [- 5], scorer = \<lparr>score = Finite 0\<rparr>\<rparr>],
      rng = [0, 0, 1], distr = \<lparr>dist_a = 0, dist_b = 1\<rparr>, generation = 0,
      shuffle_indices = [0, 1], next_generation = []\<rparr> =
     Inr (\<lparr>n_genoms = 2, take_count = 1, retain = 0,
           genoms = [\<lparr>nucleotides = [- 5], scorer = \<lparr>score = Finite 0\<rparr>\<rparr>,
                     \<lparr>nucleotides = [- 5], scorer = \<lparr>score = Finite 0\<rparr>\<rparr>],
           rng = [1], distr = \<lparr>dist_a = 0, dist_b = 1\<rparr>, generation = 0,
           shuffle_indices = [0, 0],
           next_generation = [\<lparr>nucleotides = [- 5], scorer = \<lparr>score = Finite 0\<rparr>\<rparr>,
                              \<lparr>nucleotides = [- 5], scorer = \<lparr>score = Finite 0\<rparr>\<rparr>]\<rparr>,
          [\<lparr>first_parent = 0, second_parent = 0, child_slot = 0, crossover_point = 0\<rparr>,
           \<lparr>first_parent = 0, second_parent = 0, child_slot = 1, crossover_point = 0\<rparr>]) \<and>
   uniform_int replay_next \<lparr>dist_a = 0, dist_b = 1\<rparr> [1] = (1, []) \<and>
   Genom_mutate (test_params [0, 0, 0, 0, 1]) 1 []
     \<lparr>nucleotides = [- 5], scorer = \<lparr>score = Finite 0\<rparr>\<rparr> = Inl OutOfRange \<and>
   GenePool_select (test_params [0, 0, 0, 0, 1])
     \<lparr>n_genoms = 2, take_count = 1, retain = 0,
      genoms = [\<lparr>nucleotides = [- 5], scorer = \<lparr>score = Finite 0\<rparr>\<rparr>,
                \<lparr>nucleotides = [- 5], scorer = \<lparr>score = Finite 0\<rparr>\<rparr>],
      rng = [0, 0, 1], distr = \<lparr>dist_a = 0, dist_b = 1\<rparr>, generation = 0,
      shuffle_indices = [0, 1], next_generation = []\<rparr> = Inl OutOfRange"
  by code_simp

subsection \<open>The shuffles and the copy loop\<close>

lemma uniform_int_range:
  assumes "dist_a d \<le> dist_b d" and "uniform_int nxt d rg = (x, rg')"
  shows "dist_a d \<le> x \<and> x \<le> dist_b d"
proof -
  obtain y where x: "x = dist_a d + y mod (dist_b d - dist_a d + 1)"
    using assms(2) by (auto simp: uniform_int_def split: prod.splits)
  have "y mod (dist_b d - dist_a d + 1) \<le> dist_b d - dist_a d"
    using mod_less_divisor [of "dist_b d - dist_a d + 1" y] by simp
  with assms(1) show ?thesis unfolding x by arith
qed

lemma swap_at_length: "length (swap_at i j xs) = length xs"
  by (simp add: swap_at_def)

lemma swap_at_mset:
  "i < length xs \<Longrightarrow> j < length xs \<Longrightarrow> mset (swap_at i j xs) = mset xs"
  by (simp add: swap_at_def mset_swap)

lemma shuffle_loop_props:
  "shuffle_loop nxt i xs rg = (ys, rg') \<Longrightarrow> length ys = length xs \<and> mset ys = mset xs"
proof (induction nxt i xs rg arbitrary: ys rg' rule: shuffle_loop.induct)
  case (1 nxt i xs rg)
  show ?case
  proof (cases "i < length xs")
    case False
    with "1.prems" show ?thesis by (simp add: shuffle_loop.simps)
  next
    case True
    obtain j rg1 where u: "uniform_int nxt \<lparr>dist_a = 0, dist_b = i\<rparr> rg = (j, rg1)"
      by (cases "uniform_int nxt \<lparr>dist_a = 0, dist_b = i\<rparr> rg")
    from uniform_int_range [OF _ u] have j: "j \<le> i" by simp
    from "1.prems" True u have "shuffle_loop nxt (Suc i) (swap_at i j xs) rg1 = (ys, rg')"
      by (subst (asm) shuffle_loop.simps) simp
    from "1.IH" [OF True u [symmetric] this] True j show ?thesis
      by (simp add: swap_at_length swap_at_mset)
  qed
qed

lemma shuffle_from_props:
  assumes "k \<le> length xs"
  shows "\<exists>ys rg'. shuffle_from nxt k xs rg = Inr (ys, rg') \<and> length ys = length xs \<and>
           mset ys = mset xs \<and> take k ys = take k xs"
proof -
  obtain zs rg' where z: "shuffle nxt (drop k xs) rg = (zs, rg')"
    by (cases "shuffle nxt (drop k xs) rg")
  then have zs: "length zs = length (drop k xs)" "mset zs = mset (drop k xs)"
    using shuffle_loop_props [of nxt 1 "drop k xs" rg zs rg'] by (simp_all add: shuffle_def)
  have "mset (take k xs @ zs) = mset xs"
    by (metis zs(2) mset_append append_take_drop_id)
  with assms z zs(1) show ?thesis by (simp add: shuffle_from_def)
qed

lemma copy_first_half_props:
  assumes "2 * half \<le> length idx"
  shows "\<exists>r. copy_first_half i half idx = Inr r \<and> length r = length idx \<and>
           (\<forall>k < length idx. r ! k =
              (if half + i \<le> k \<and> k < 2 * half then idx ! (k - half) else idx ! k))"
  using assms
proof (induction i half idx rule: copy_first_half.induct)
  case (1 i half idx)
  show ?case
  proof (cases "i < half")
    case False
    then show ?thesis by (auto simp: copy_first_half.simps)
  next
    case lt: True
    let ?idx1 = "idx[i + half := idx ! i]"
    from lt "1.prems" have b: "i + half < length idx" by simp
    from "1.prems" have "2 * half \<le> length ?idx1" by simp
    from "1.IH" [OF lt b this]
    obtain r where r: "copy_first_half (Suc i) half ?idx1 = Inr r" "length r = length idx"
      "\<forall>k < length idx. r ! k =
         (if half + Suc i \<le> k \<and> k < 2 * half then ?idx1 ! (k - half) else ?idx1 ! k)"
      by auto
    have eq: "copy_first_half i half idx = Inr r"
      using lt b r(1) by (subst copy_first_half.simps) simp
    have "r ! k = (if half + i \<le> k \<and> k < 2 * half then idx ! (k - half) else idx ! k)"
      if k: "k < length idx" for k
    proof (cases "k = i + half")
      case True
      with r(3) k b lt show ?thesis by simp
    next
      case False
      show ?thesis
      proof (cases "half + Suc i \<le> k \<and> k < 2 * half")
        case True
        then have "k - half \<noteq> i + half" by arith
        with r(3) k True show ?thesis by simp
      next
        case F2: False
        from r(3) k have "r ! k =
            (if half + Suc i \<le> k \<and> k < 2 * half then ?idx1 ! (k - half) else ?idx1 ! k)"
          by blast
        then have "r ! k = ?idx1 ! k" by (simp only: F2 if_False)
        with False have "r ! k = idx ! k" by simp
        moreover from F2 False have "\<not> (half + i \<le> k \<and> k < 2 * half)" by arith
        ultimately show ?thesis by auto
      qed
    qed
    with eq r(2) show ?thesis by simp
  qed
qed

lemma copy_first_half_eq:
  assumes "2 * half \<le> length idx"
  shows "copy_first_half 0 half idx = Inr (take half idx @ take half idx @ drop (2 * half) idx)"
proof -
  from copy_first_half_props [OF assms, of 0]
  obtain r where r: "copy_first_half 0 half idx = Inr r" "length r = length idx"
    "\<forall>k < length idx. r ! k = (if half \<le> k \<and> k < 2 * half then idx ! (k - half) else idx ! k)"
    by auto
  from assms have lh: "length (take half idx) = half" by simp
  have "r = take half idx @ take half idx @ drop (2 * half) idx"
  proof (rule nth_equalityI)
    show "length r = length (take half idx @ take half idx @ drop (2 * half) idx)"
      using assms r(2) by simp
  next
    fix k assume "k < length r"
    with r(2) have k: "k < length idx" by simp
    consider "k < half" | "half \<le> k" "k < 2 * half" | "2 * half \<le> k" by linarith
    then show "r ! k = (take half idx @ take half idx @ drop (2 * half) idx) ! k"
    proof cases
      case 1
      with r(3) k lh show ?thesis by (simp add: nth_append)
    next
      case 2
      then have "k - half < half" by arith
      with 2 r(3) k lh show ?thesis by (simp add: nth_append)
    next
      case 3
      with r(3) k assms have "r ! k = idx ! k" by simp
      moreover from 3 have "\<not> k < half" "\<not> k - half < half" "k - half - half = k - 2 * half"
        by arith+
      with k lh
      have "(take half idx @ take half idx @ drop (2 * half) idx) ! k = idx ! (2 * half + (k - 2 * half))"
        by (simp add: nth_append)
      ultimately show ?thesis using 3 by simp
    qed
  qed
  with r(1) show ?thesis by simp
qed

subsection \<open>The loops of select\<close>

lemma Genom_crossover_inplace_ok:
  assumes "length (nucleotides a) = L" and "length (nucleotides b) = L" and "n \<le> L"
  shows "\<exists>c'. Genom_crossover_inplace P a b c n = Inr c' \<and> length (nucleotides c') = L"
proof -
  let ?c0 = "resize L (N_default P) (nucleotides c)"
  from assms obtain c1 where c1:
    "crossover_range P (nucleotides a) (nucleotides b) 0 n ?c0 = Inr c1" "length c1 = L"
    using crossover_range_ok [of n "nucleotides a" "nucleotides b" ?c0 P 0]
    by (auto simp: resize_length)
  from assms c1(2) obtain c2 where c2:
    "crossover_range P (nucleotides b) (nucleotides a) n L c1 = Inr c2" "length c2 = L"
    using crossover_range_ok [of L "nucleotides b" "nucleotides a" c1 P n]
    by auto
  from assms(1) c1 c2 show ?thesis
    by (simp add: Genom_crossover_inplace_def)
qed

lemma take_as_map_nth: "n \<le> length xs \<Longrightarrow> map ((!) xs) [0..<n] = take n xs"
  by (rule nth_equalityI) auto

lemma crossover_loop_props:
  assumes "2 * half \<le> length idx" and "\<forall>x \<in> set idx. x < length gs"
    and "\<forall>g \<in> set gs. length (nucleotides g) = dist_b d" and "dist_a d = 0"
    and "off + half \<le> length ng"
  shows "\<exists>ng' rg' calls'.
           crossover_loop P gs idx d half off i ng rg calls = Inr (ng', rg', calls') \<and>
           length ng' = length ng \<and>
           (\<forall>k < length ng.
              if off + i \<le> k \<and> k < off + half
              then length (nucleotides (ng' ! k)) = dist_b d
              else ng' ! k = ng ! k) \<and>
           map first_parent calls' = map first_parent calls @ map ((!) idx) [i..<half]"
  using assms
proof (induction P gs idx d half off i ng rg calls rule: crossover_loop.induct)
  case (1 P gs idx d half off i ng rg calls)
  show ?case
  proof (cases "i < half")
    case False
    then show ?thesis by (auto simp: crossover_loop.simps)
  next
    case lt: True
    let ?a = "gs ! (idx ! i)" and ?b = "gs ! (idx ! (i + half))"
    from lt "1.prems"(1) have ih: "i + half < length idx" and il: "i < length idx" by simp_all
    with "1.prems"(2) have pa: "idx ! i < length gs" and pb: "idx ! (i + half) < length gs"
      by simp_all
    from lt "1.prems"(5) have io: "i + off < length ng" by simp
    have conds: "i + half < length idx \<and> idx ! i < length gs \<and>
        idx ! (i + half) < length gs \<and> i + off < length ng"
      using ih pa pb io by simp
    obtain n rg1 where u: "uniform_int (R_next P) d rg = (n, rg1)"
      by (cases "uniform_int (R_next P) d rg")
    from uniform_int_range [OF _ u] "1.prems"(4) have n: "n \<le> dist_b d" by simp
    from pa pb "1.prems"(3) have la: "length (nucleotides ?a) = dist_b d"
      and lb: "length (nucleotides ?b) = dist_b d" by simp_all
    from Genom_crossover_inplace_ok [OF la lb n, of P "ng ! (i + off)"]
    obtain c where c: "Genom_crossover_inplace P ?a ?b (ng ! (i + off)) n = Inr c"
      "length (nucleotides c) = dist_b d" by blast
    let ?ng1 = "ng[i + off := c]"
    let ?calls1 = "calls @ [\<lparr>first_parent = idx ! i, second_parent = idx ! (i + half),
                              child_slot = i + off, crossover_point = n\<rparr>]"
    have step: "crossover_loop P gs idx d half off i ng rg calls
        = crossover_loop P gs idx d half off (Suc i) ?ng1 rg1 ?calls1"
      using lt conds u c(1) by (subst crossover_loop.simps) simp
    from "1.prems"(5) have l1: "off + half \<le> length ?ng1" by simp
    from "1.IH" [OF lt conds u [symmetric] c(1) "1.prems"(1-4) l1]
    obtain ng' rg' calls' where r:
      "crossover_loop P gs idx d half off (Suc i) ?ng1 rg1 ?calls1 = Inr (ng', rg', calls')"
      "length ng' = length ng"
      "\<forall>k < length ng.
          if off + Suc i \<le> k \<and> k < off + half
          then length (nucleotides (ng' ! k)) = dist_b d
          else ng' ! k = ?ng1 ! k"
      "map first_parent calls' = map first_parent ?calls1 @ map ((!) idx) [Suc i..<half]"
      by auto
    have slots: "if off + i \<le> k \<and> k < off + half
          then length (nucleotides (ng' ! k)) = dist_b d
          else ng' ! k = ng ! k" if k: "k < length ng" for k
    proof (cases "k = i + off")
      case True
      with r(3) k have "ng' ! k = c" by simp
      with c(2) True lt show ?thesis by simp
    next
      case False
      from r(3) k have "if off + Suc i \<le> k \<and> k < off + half
          then length (nucleotides (ng' ! k)) = dist_b d
          else ng' ! k = ?ng1 ! k" by blast
      with False show ?thesis by (auto split: if_splits)
    qed
    from lt have "[i..<half] = i # [Suc i..<half]" by (rule upt_conv_Cons)
    with r(4) have "map first_parent calls' = map first_parent calls @ map ((!) idx) [i..<half]"
      by simp
    with step r(1,2) slots show ?thesis by simp
  qed
qed

lemma mutate_all_props:
  "mutate_all P d gs rg = Inr (gs', rg') \<Longrightarrow>
   list_all2 (\<lambda>g g'. length (nucleotides g') = length (nucleotides g) \<and> nucleotides g \<noteq> [])
     gs gs'"
proof (induction gs arbitrary: rg gs' rg')
  case Nil
  then show ?case by simp
next
  case (Cons g gs)
  obtain n rg1 where u: "uniform_int (R_next P) d rg = (n, rg1)"
    by (cases "uniform_int (R_next P) d rg")
  from Cons.prems u obtain g1 rg2 where m: "Genom_mutate P n rg1 g = Inr (g1, rg2)"
    by (cases "Genom_mutate P n rg1 g") auto
  from Cons.prems u m obtain gs1 rg3 where rest: "mutate_all P d gs rg2 = Inr (gs1, rg3)"
    by (cases "mutate_all P d gs rg2") auto
  from Cons.prems u m rest have gs': "gs' = g1 # gs1" by simp
  from m have "length (nucleotides g1) = length (nucleotides g) \<and> nucleotides g \<noteq> []"
    by (auto simp: Genom_mutate_def split: if_splits prod.splits)
  with Cons.IH [OF rest] gs' show ?case by simp
qed

lemma select_mating_pool_props:
  assumes "pool_inv s" and "take_count s \<le> n_genoms s"
  shows "\<exists>idx1 rg1.
           select_mating_pool P s =
             Inr (s\<lparr>shuffle_indices :=
                       take (n_genoms s div 2) idx1 @ take (n_genoms s div 2) idx1
                         @ drop (2 * (n_genoms s div 2)) idx1,
                     rng := rg1\<rparr>) \<and>
           length idx1 = n_genoms s \<and> mset idx1 = mset (shuffle_indices s) \<and>
           take (take_count s) idx1 = take (take_count s) (shuffle_indices s)"
proof -
  from assms(1) have len: "length (shuffle_indices s) = n_genoms s"
    by (simp add: pool_inv_def)
  with assms(2) have "take_count s \<le> length (shuffle_indices s)" by simp
  from shuffle_from_props [OF this, of "R_next P" "rng s"]
  obtain idx1 rg1 where s1:
    "shuffle_from (R_next P) (take_count s) (shuffle_indices s) (rng s) = Inr (idx1, rg1)"
    "length idx1 = length (shuffle_indices s)" "mset idx1 = mset (shuffle_indices s)"
    "take (take_count s) idx1 = take (take_count s) (shuffle_indices s)"
    by blast
  from s1(2) len have "2 * (n_genoms s div 2) \<le> length idx1" by simp
  from copy_first_half_eq [OF this] s1(1)
  have "select_mating_pool P s =
      Inr (s\<lparr>shuffle_indices :=
                take (n_genoms s div 2) idx1 @ take (n_genoms s div 2) idx1
                  @ drop (2 * (n_genoms s div 2)) idx1,
              rng := rg1\<rparr>)"
    by (simp add: select_mating_pool_def)
  with s1(2-4) len show ?thesis by auto
qed

lemma resize_set: "set (resize n d xs) \<subseteq> insert d (set xs)"
  using set_take_subset [of n xs] by (auto simp: resize_def)

lemma select_breed_props:
  assumes "pool_inv s" and "take_count s \<le> n_genoms s"
  shows "\<exists>s1 calls.
           select_breed P s = Inr (s1, calls) \<and>
           n_genoms s1 = n_genoms s \<and> take_count s1 = take_count s \<and>
           distr s1 = distr s \<and> genoms s1 = genoms s \<and>
           length (shuffle_indices s1) = n_genoms s \<and>
           set (shuffle_indices s1) \<subseteq> set (shuffle_indices s) \<and>
           (\<forall>k. k < take_count s \<and> k < n_genoms s div 2 \<longrightarrow> shuffle_indices s1 ! k = k) \<and>
           length (next_generation s1) = n_genoms s \<and>
           (\<forall>g \<in> set (next_generation s1).
              length (nucleotides g) = dist_b (distr s) \<or> nucleotides g = []) \<and>
           map first_parent calls =
             take (n_genoms s div 2) (shuffle_indices s1)
               @ take (n_genoms s div 2) (shuffle_indices s1)"
proof -
  let ?N = "n_genoms s" and ?half = "n_genoms s div 2" and ?L = "dist_b (distr s)"
  let ?dflt = "\<lparr>nucleotides = [], scorer = S_default P\<rparr>"
  from assms(1) have inv:
    "length (genoms s) = ?N" "\<forall>g \<in> set (genoms s). length (nucleotides g) = ?L"
    "dist_a (distr s) = 0" "length (shuffle_indices s) = ?N"
    "\<forall>x \<in> set (shuffle_indices s). x < ?N"
    "\<forall>k. k < take_count s \<and> k < ?half \<longrightarrow> shuffle_indices s ! k = k"
    "\<forall>g \<in> set (next_generation s). length (nucleotides g) = ?L"
    by (simp_all add: pool_inv_def)
  from select_mating_pool_props [OF assms, of P]
  obtain idx1 rg1 where mp:
    "select_mating_pool P s =
       Inr (s\<lparr>shuffle_indices := take ?half idx1 @ take ?half idx1 @ drop (2 * ?half) idx1,
               rng := rg1\<rparr>)"
    "length idx1 = ?N" "mset idx1 = mset (shuffle_indices s)"
    "take (take_count s) idx1 = take (take_count s) (shuffle_indices s)"
    by blast
  define idx where "idx = take ?half idx1 @ take ?half idx1 @ drop (2 * ?half) idx1"
  from mp(2) have lidx: "length idx = ?N" by (simp add: idx_def)
  from mp(3) have set1: "set idx1 = set (shuffle_indices s)" by (rule mset_eq_setD)
  have setidx: "set idx \<subseteq> set idx1"
    using set_take_subset [of ?half idx1] set_drop_subset [of "2 * ?half" idx1]
    by (auto simp: idx_def)
  have pre: "idx ! k = k" if k: "k < take_count s" "k < ?half" for k
  proof -
    from k mp(2) have "idx ! k = idx1 ! k" by (simp add: idx_def nth_append)
    also from k have "\<dots> = take (take_count s) idx1 ! k" by simp
    also from k have "\<dots> = shuffle_indices s ! k" by (simp add: mp(4))
    also from k inv(6) have "\<dots> = k" by simp
    finally show ?thesis .
  qed
  \<comment> \<open>second shuffle\<close>
  from lidx have "?half \<le> length idx" by simp
  from shuffle_from_props [OF this, of "R_next P" rg1]
  obtain idx2 rg2 where s2:
    "shuffle_from (R_next P) ?half idx rg1 = Inr (idx2, rg2)"
    "length idx2 = length idx" "mset idx2 = mset idx" "take ?half idx2 = take ?half idx"
    by blast
  from s2(3) have set2: "set idx2 = set idx" by (rule mset_eq_setD)
  from s2(2) lidx have l2: "length idx2 = ?N" by simp
  let ?ng0 = "resize ?N ?dflt (next_generation s)"
  have lng0: "length ?ng0 = ?N" by (rule resize_length)
  \<comment> \<open>first crossover loop\<close>
  have a1: "2 * ?half \<le> length idx2" using l2 by simp
  have a2: "\<forall>x \<in> set idx2. x < length (genoms s)"
    using set2 setidx set1 inv(5) inv(1) by auto
  have a5: "0 + ?half \<le> length ?ng0" using lng0 by simp
  from crossover_loop_props [OF a1 a2 inv(2) inv(3) a5, of P 0 rg2 "[]"]
  obtain ng1 rg3 calls1 where c1:
    "crossover_loop P (genoms s) idx2 (distr s) ?half 0 0 ?ng0 rg2 [] = Inr (ng1, rg3, calls1)"
    "length ng1 = ?N"
    "\<forall>k < ?N. if k < ?half then length (nucleotides (ng1 ! k)) = ?L else ng1 ! k = ?ng0 ! k"
    "map first_parent calls1 = map ((!) idx2) [0..<?half]"
    by (auto simp: lng0)
  \<comment> \<open>third shuffle\<close>
  from l2 have "?half \<le> length idx2" by simp
  from shuffle_from_props [OF this, of "R_next P" rg3]
  obtain idx3 rg4 where s3:
    "shuffle_from (R_next P) ?half idx2 rg3 = Inr (idx3, rg4)"
    "length idx3 = length idx2" "mset idx3 = mset idx2" "take ?half idx3 = take ?half idx2"
    by blast
  from s3(3) have set3: "set idx3 = set idx2" by (rule mset_eq_setD)
  from s3(2) l2 have l3: "length idx3 = ?N" by simp
  \<comment> \<open>second crossover loop\<close>
  have b1: "2 * ?half \<le> length idx3" using l3 by simp
  have b2: "\<forall>x \<in> set idx3. x < length (genoms s)" using set3 a2 by simp
  have b5: "?half + ?half \<le> length ng1" using c1(2) by simp
  from crossover_loop_props [OF b1 b2 inv(2) inv(3) b5, of P 0 rg4 calls1]
  obtain ng2 rg5 calls2 where c2:
    "crossover_loop P (genoms s) idx3 (distr s) ?half ?half 0 ng1 rg4 calls1
       = Inr (ng2, rg5, calls2)"
    "length ng2 = ?N"
    "\<forall>k < ?N. if ?half \<le> k \<and> k < ?half + ?half
        then length (nucleotides (ng2 ! k)) = ?L else ng2 ! k = ng1 ! k"
    "map first_parent calls2 = map first_parent calls1 @ map ((!) idx3) [0..<?half]"
    by (auto simp: c1(2))
  let ?s1 = "s\<lparr>shuffle_indices := idx3, next_generation := ng2, rng := rg5\<rparr>"
  have res: "select_breed P s = Inr (?s1, calls2)"
    using mp(1) s2(1) c1(1) s3(1) c2(1) by (simp add: select_breed_def idx_def)
  have elems: "length (nucleotides g) = ?L \<or> nucleotides g = []" if g: "g \<in> set ng2" for g
  proof -
    from g c2(2) obtain k where k: "k < ?N" "ng2 ! k = g" by (auto simp: in_set_conv_nth)
    show ?thesis
    proof (cases "?half \<le> k \<and> k < ?half + ?half")
      case True
      with c2(3) k show ?thesis by auto
    next
      case False
      with c2(3) k have g1: "ng1 ! k = g" by auto
      show ?thesis
      proof (cases "k < ?half")
        case True
        with c1(3) k(1) g1 show ?thesis by auto
      next
        case False
        with c1(3) k(1) g1 have "?ng0 ! k = g" by auto
        with k(1) lng0 have "g \<in> set ?ng0" by (auto simp: in_set_conv_nth)
        with resize_set [of ?N ?dflt "next_generation s"]
        have "g = ?dflt \<or> g \<in> set (next_generation s)" by auto
        with inv(7) show ?thesis by auto
      qed
    qed
  qed
  from l3 l2 have th: "take ?half idx3 = map ((!) idx3) [0..<?half]"
    "take ?half idx2 = map ((!) idx2) [0..<?half]"
    by (simp_all add: take_as_map_nth)
  have fp: "map first_parent calls2 = take ?half idx3 @ take ?half idx3"
    using c2(4) c1(4) th s3(4) by simp
  have pre3: "idx3 ! k = k" if k: "k < take_count s" "k < ?half" for k
  proof -
    from k have "idx3 ! k = take ?half idx3 ! k" by simp
    also have "\<dots> = take ?half idx ! k" by (simp only: s3(4) s2(4))
    also from k have "\<dots> = idx ! k" by simp
    also from k have "\<dots> = k" by (rule pre)
    finally show ?thesis .
  qed
  have sub: "set idx3 \<subseteq> set (shuffle_indices s)"
    using set3 set2 setidx set1 by simp
  from res l3 sub pre3 c2(2) elems fp show ?thesis by auto
qed

subsection \<open>Every pool of a program satisfies the invariant\<close>

lemma select_returns_take:
  assumes "GenePool_select P s = Inr s'"
  shows "take_count s \<le> length (shuffle_indices s)"
proof (rule ccontr)
  assume "\<not> take_count s \<le> length (shuffle_indices s)"
  then have "shuffle_from (R_next P) (take_count s) (shuffle_indices s) (rng s) = Inl OutOfRange"
    by (simp add: shuffle_from_def)
  then have "GenePool_select P s = Inl OutOfRange"
    by (simp add: GenePool_select_def select_breed_def select_mating_pool_def)
  with assms show False by simp
qed

lemma select_inv:
  assumes "pool_inv s" and "GenePool_select P s = Inr s'"
  shows "pool_inv s'"
proof -
  let ?N = "n_genoms s" and ?L = "dist_b (distr s)"
  from assms(1) have inv:
    "length (genoms s) = ?N" "\<forall>g \<in> set (genoms s). length (nucleotides g) = ?L"
    "dist_a (distr s) = 0" "\<forall>x \<in> set (shuffle_indices s). x < ?N"
    "length (shuffle_indices s) = ?N"
    by (simp_all add: pool_inv_def)
  from assms(2) have "take_count s \<le> length (shuffle_indices s)"
    by (rule select_returns_take)
  with inv(5) have tk: "take_count s \<le> ?N" by simp
  from select_breed_props [OF assms(1) tk, of P]
  obtain s1 calls where b:
    "select_breed P s = Inr (s1, calls)"
    "n_genoms s1 = ?N" "take_count s1 = take_count s" "distr s1 = distr s"
    "genoms s1 = genoms s" "length (shuffle_indices s1) = ?N"
    "set (shuffle_indices s1) \<subseteq> set (shuffle_indices s)"
    "\<forall>k. k < take_count s \<and> k < ?N div 2 \<longrightarrow> shuffle_indices s1 ! k = k"
    "length (next_generation s1) = ?N"
    "\<forall>g \<in> set (next_generation s1). length (nucleotides g) = ?L \<or> nucleotides g = []"
    by blast
  from assms(2) b(1) have m: "select_mutate_swap P s1 = Inr s'"
    by (simp add: GenePool_select_def)
  then obtain ng rg' where mu:
    "mutate_all P (distr s1) (next_generation s1) (rng s1) = Inr (ng, rg')"
    and s': "s' = s1\<lparr>genoms := ng, next_generation := genoms s1, rng := rg'\<rparr>"
    by (auto simp: select_mutate_swap_def split: sum.splits)
  from mutate_all_props [OF mu]
  have la: "list_all2 (\<lambda>g g'. length (nucleotides g') = length (nucleotides g)
      \<and> nucleotides g \<noteq> []) (next_generation s1) ng" .
  then have lng: "length ng = ?N" using b(9) by (simp add: list_all2_lengthD [symmetric])
  have ngL: "length (nucleotides g') = ?L" if "g' \<in> set ng" for g'
  proof -
    from that lng obtain k where k: "k < ?N" "ng ! k = g'" by (auto simp: in_set_conv_nth)
    with la b(9) have "length (nucleotides g') = length (nucleotides (next_generation s1 ! k))"
      "nucleotides (next_generation s1 ! k) \<noteq> []"
      by (auto simp: list_all2_conv_all_nth)
    moreover from k(1) b(9) have "next_generation s1 ! k \<in> set (next_generation s1)" by simp
    ultimately show ?thesis using b(10) by auto
  qed
  show ?thesis
    unfolding pool_inv_def s'
    using lng ngL b inv by auto
qed

lemma random_genoms_props:
  "random_genoms P k L acc rg = (gs, rg') \<Longrightarrow>
   length gs = length acc + k \<and>
   (\<forall>g \<in> set gs. g \<in> set acc \<or> length (nucleotides g) = L)"
proof (induction k arbitrary: acc rg)
  case 0
  then show ?case by auto
next
  case (Suc k)
  obtain g rg1 where g: "Genom_random P L rg = (g, rg1)" by (cases "Genom_random P L rg")
  with Genom_random_length [of P L rg] have lg: "length (nucleotides g) = L" by simp
  from Suc.prems g have "random_genoms P k L (acc @ [g]) rg1 = (gs, rg')" by simp
  from Suc.IH [OF this] lg show ?case by auto
qed

lemma constructed_inv:
  assumes "GenePool_new P pl N L f = Inr s"
  shows "pool_inv s \<and> n_genoms s = N \<and> shuffle_indices s = [0..<N] \<and>
         distr s = \<lparr>dist_a = 0, dist_b = L\<rparr>"
proof -
  from assms obtain tk rt where conv:
    "to_size_t (float_mul binary32 (ieee_round binary32 (real N)) f) = Inr tk"
    "to_size_t (float_mul binary64 (ieee_round binary64 (real N))
       (float_sub binary64 (Finite (1 / 2)) f)) = Inr rt"
    by (auto simp: GenePool_new_def split: sum.splits)
  obtain gs rg' where r:
    "random_genoms P N L [] (R_seed P (default_random_engine_first pl)) = (gs, rg')"
    by (cases "random_genoms P N L [] (R_seed P (default_random_engine_first pl))")
  from assms conv r have s: "s = \<lparr>n_genoms = N, take_count = tk, retain = rt, genoms = gs,
      rng = rg', distr = \<lparr>dist_a = 0, dist_b = L\<rparr>, generation = 0,
      shuffle_indices = [0..<N], next_generation = []\<rparr>"
    by (simp add: GenePool_new_def)
  from random_genoms_props [OF r] have gs: "length gs = N"
    "\<forall>g \<in> set gs. length (nucleotides g) = L" by auto
  have "\<forall>k. k < tk \<and> k < N div 2 \<longrightarrow> [0..<N] ! k = k"
  proof (intro allI impI)
    fix k assume "k < tk \<and> k < N div 2"
    then have "k < N" by arith
    then show "[0..<N] ! k = k" by simp
  qed
  with gs show ?thesis by (simp add: s pool_inv_def)
qed

lemma simulate_inv:
  assumes "pool_inv s" and "\<And>g. length (nucleotides (simulator g)) = length (nucleotides g)"
    and "GenePool_simulate P simulator s = Inr s'"
  shows "pool_inv s'"
proof -
  define v where "v = rev (std_sort (Genom_less P) (rev (map simulator (genoms s))))"
  from assms(3) have s': "s' = s\<lparr>genoms := v, generation := (generation s + 1) mod 2 ^ 64\<rparr>"
    by (auto simp: GenePool_simulate_def Let_def v_def split: if_splits)
  have ms: "mset v = mset (map simulator (genoms s))" by (simp add: v_def mset_std_sort)
  from ms have sv: "set v = set (map simulator (genoms s))" by (rule mset_eq_setD)
  from ms have "length v = length (map simulator (genoms s))" by (rule mset_eq_length)
  then have lv: "length v = length (genoms s)" by simp
  from assms(1) have "\<forall>g \<in> set (genoms s). length (nucleotides g) = dist_b (distr s)"
    by (simp add: pool_inv_def)
  with assms(2) sv have "\<forall>g \<in> set v. length (nucleotides g) = dist_b (distr s)" by auto
  with assms(1) lv show ?thesis by (simp add: pool_inv_def s')
qed

lemma shift_all_props:
  "shift_all n gs = Inr gs' \<Longrightarrow>
   list_all2 (\<lambda>g g'. length (nucleotides g') = length (nucleotides g)) gs gs'"
proof (induction gs arbitrary: gs')
  case Nil
  then show ?case by simp
next
  case (Cons g gs)
  from Cons.prems obtain g1 where g1: "Genom_shift n g = Inr g1"
    by (cases "Genom_shift n g") auto
  from Cons.prems g1 obtain gs1 where gs1: "shift_all n gs = Inr gs1"
    by (cases "shift_all n gs") auto
  from Cons.prems g1 gs1 have "gs' = g1 # gs1" by simp
  moreover from g1 have "length (nucleotides g1) = length (nucleotides g)"
    by (auto simp: Genom_shift_def split: if_splits)
  ultimately show ?case using Cons.IH [OF gs1] by simp
qed

lemma shift_inv:
  assumes "pool_inv s" and "GenePool_shift n s = Inr s'"
  shows "pool_inv s'"
proof -
  from assms(2) obtain gs where gs: "shift_all n (genoms s) = Inr gs"
    and s': "s' = s\<lparr>genoms := gs\<rparr>"
    by (auto simp: GenePool_shift_def split: sum.splits)
  from shift_all_props [OF gs]
  have la: "list_all2 (\<lambda>g g'. length (nucleotides g') = length (nucleotides g)) (genoms s) gs" .
  then have l: "length gs = length (genoms s)" by (simp add: list_all2_lengthD)
  have "length (nucleotides g') = dist_b (distr s)" if "g' \<in> set gs" for g'
  proof -
    from that obtain k where k: "k < length gs" "gs ! k = g'" by (auto simp: in_set_conv_nth)
    with la l have "length (nucleotides g') = length (nucleotides (genoms s ! k))"
      by (auto simp: list_all2_conv_all_nth)
    moreover from k(1) l have "genoms s ! k \<in> set (genoms s)" by simp
    ultimately show ?thesis using assms(1) by (simp add: pool_inv_def)
  qed
  with assms(1) l show ?thesis by (simp add: pool_inv_def s')
qed

lemma reset_inv: "pool_inv s \<Longrightarrow> pool_inv (GenePool_reset s)"
  by (simp add: pool_inv_def GenePool_reset_def)

lemma reachable_inv: "reachable P s \<Longrightarrow> pool_inv s"
proof (induction rule: reachable.induct)
  case (constructed pl genoms_count genom_len take_value s)
  then show ?case using constructed_inv by blast
next
  case (simulated s simulator s')
  then show ?case using simulate_inv by blast
next
  case (selected s s')
  then show ?case using select_inv by blast
next
  case (shifted s n s')
  then show ?case using shift_inv by blast
next
  case (reset s)
  then show ?case by (simp add: reset_inv)
qed

lemma constructed_identity_indices:
  assumes "GenePool_new P pl N L f = Inr s" and "GenePool_simulate P simulator s = Inr s'"
  shows "shuffle_indices s' = [0..<n_genoms s']"
  using constructed_inv [OF assms(1)] assms(2)
  by (auto simp: GenePool_simulate_def Let_def split: if_splits)

subsection \<open>The mating pool and the elite\<close>

text \<open>
  Claim C3 (the mating pool), as the code has it. In a pool of even size with
  \<open>take \<le> half\<close>, the first part of \<^verbatim>\<open>select\<close> (the shuffle of the slots from \<open>take\<close>
  on and the copy of the first half of the index array over the second) returns;
  afterwards the index array holds at most \<open>half\<close> distinct indices, all of them
  positions of the population, and every elite index \<open>0, ..., take - 1\<close> among them.
  When the index array is the identity permutation at the call, as the constructor
  leaves it, the array then holds exactly \<open>half\<close> distinct indices.
\<close>

theorem mating_pool_distinct:
  assumes "reachable P s" and "even (n_genoms s)" and "take_count s \<le> n_genoms s div 2"
  shows "\<exists>s1. select_mating_pool P s = Inr s1 \<and>
           (\<forall>e. e < take_count s \<longrightarrow> e \<in> set (shuffle_indices s1)) \<and>
           (\<forall>x. x \<in> set (shuffle_indices s1) \<longrightarrow> x < n_genoms s) \<and>
           card (set (shuffle_indices s1)) \<le> n_genoms s div 2 \<and>
           (shuffle_indices s = [0..<n_genoms s] \<longrightarrow>
              card (set (shuffle_indices s1)) = n_genoms s div 2)"
proof -
  let ?N = "n_genoms s" and ?half = "n_genoms s div 2"
  from assms(1) have inv: "pool_inv s" by (rule reachable_inv)
  then have pre: "\<forall>k. k < take_count s \<and> k < ?half \<longrightarrow> shuffle_indices s ! k = k"
    and bound: "\<forall>x \<in> set (shuffle_indices s). x < ?N"
    and len: "length (shuffle_indices s) = ?N"
    by (simp_all add: pool_inv_def)
  from assms(2) have N: "2 * ?half = ?N" by simp
  note th = assms(3)
  from th have tN: "take_count s \<le> ?N" by simp
  from select_mating_pool_props [OF inv tN, of P]
  obtain idx1 rg1 where mp:
    "select_mating_pool P s =
       Inr (s\<lparr>shuffle_indices := take ?half idx1 @ take ?half idx1 @ drop (2 * ?half) idx1,
               rng := rg1\<rparr>)"
    "length idx1 = ?N" "mset idx1 = mset (shuffle_indices s)"
    "take (take_count s) idx1 = take (take_count s) (shuffle_indices s)"
    by blast
  define idx where "idx = take ?half idx1 @ take ?half idx1 @ drop (2 * ?half) idx1"
  from mp(2) N have set_idx: "set idx = set (take ?half idx1)" by (simp add: idx_def)
  from mp(3) have set1: "set idx1 = set (shuffle_indices s)" by (rule mset_eq_setD)
  have elite: "e \<in> set idx" if e: "e < take_count s" for e
  proof -
    from e th have eh: "e < ?half" by simp
    from e have "idx1 ! e = take (take_count s) idx1 ! e" by simp
    also from e have "\<dots> = shuffle_indices s ! e" by (simp add: mp(4))
    also from e eh pre have "\<dots> = e" by simp
    finally have "idx1 ! e = e" .
    with eh have "take ?half idx1 ! e = e" by simp
    moreover from eh mp(2) have "e < length (take ?half idx1)" by simp
    ultimately have "e \<in> set (take ?half idx1)" by (metis nth_mem)
    with set_idx show ?thesis by simp
  qed
  have valid: "x < ?N" if "x \<in> set idx" for x
  proof -
    from that set_idx have "x \<in> set idx1" by (auto dest: in_set_takeD)
    with set1 bound show ?thesis by simp
  qed
  have "card (set (take ?half idx1)) \<le> length (take ?half idx1)" by (rule card_length)
  with mp(2) set_idx have most: "card (set idx) \<le> ?half" by simp
  have first: "card (set idx) = ?half" if id: "shuffle_indices s = [0..<?N]"
  proof -
    from mp(3) id have "mset idx1 = mset [0..<?N]" by simp
    then have "distinct idx1" by (metis distinct_upt mset_eq_imp_distinct_iff)
    then have "distinct (take ?half idx1)" by (rule distinct_take)
    then have "card (set (take ?half idx1)) = length (take ?half idx1)" by (rule distinct_card)
    with mp(2) set_idx show ?thesis by simp
  qed
  from mp(1) elite valid most first show ?thesis by (simp add: idx_def)
qed

theorem mating_pool_distinct_witness:
  "\<exists>s1. select_mating_pool (test_params [])
           \<lparr>n_genoms = 4, take_count = 1, retain = 1,
            genoms = replicate 4 \<lparr>nucleotides = [- 5], scorer = \<lparr>score = Finite 0\<rparr>\<rparr>,
            rng = [], distr = \<lparr>dist_a = 0, dist_b = 1\<rparr>, generation = 0,
            shuffle_indices = [0, 1, 2, 3], next_generation = []\<rparr> = Inr s1 \<and>
         0 \<in> set (shuffle_indices s1) \<and> card (set (shuffle_indices s1)) = 2"
proof -
  let ?s0 = "\<lparr>n_genoms = 4, take_count = 1, retain = 1,
            genoms = replicate 4 \<lparr>nucleotides = [- 5 :: int], scorer = \<lparr>score = Finite 0\<rparr>\<rparr>,
            rng = [] :: nat list, distr = \<lparr>dist_a = 0, dist_b = 1\<rparr>, generation = 0,
            shuffle_indices = [0, 1, 2, 3], next_generation = []\<rparr>"
  have "GenePool_new (test_params []) test_platform 4 1 (Finite (1 / 4)) = Inr ?s0"
    by code_simp
  then have r: "reachable (test_params []) ?s0" by (rule reachable.constructed)
  have e: "even (n_genoms ?s0)" by simp
  have i: "shuffle_indices ?s0 = [0..<n_genoms ?s0]" by (simp add: upt_conv_Cons)
  have h: "take_count ?s0 \<le> n_genoms ?s0 div 2" by simp
  have t: "0 < take_count ?s0" by simp
  from mating_pool_distinct [OF r e h] i t show ?thesis by (auto simp del: upt_rec_numeral)
qed

text \<open>
  Claim C3 as stated fails in three ways. The index array is never set back to the
  identity permutation: a pool of four Genoms with elite fraction one quarter, whose
  engine hands out twenty-one zeros and then a two, has the index array
  \<open>[0, 3, 0, 3]\<close> after the first \<^verbatim>\<open>select\<close>; the shuffle of the second \<^verbatim>\<open>select\<close>
  brings \<open>[0, 0, 3, 3]\<close>, and the copy leaves \<open>[0, 0, 0, 0]\<close>: one distinct index,
  where \<open>half\<close> is two. In a pool of three Genoms the last slot is outside the copy:
  the first \<^verbatim>\<open>select\<close> leaves \<open>[2, 2, 1]\<close>, two distinct indices, where \<open>half\<close> is one.
  And \<open>take\<close> can exceed \<open>half\<close>: for twelve Genoms and the elite fraction
  \<^verbatim>\<open>0.58333331f\<close> the \<^verbatim>\<open>float\<close> product is exactly \<open>7\<close>, the copy overwrites slot
  \<open>6\<close>, and the elite index \<open>6\<close> is not in the array.
\<close>

theorem mating_pool_distinct_counterexample:
  "GenePool_new (test_params (replicate 21 0 @ [2])) test_platform 4 1 (Finite (1 / 4)) =
     Inr \<lparr>n_genoms = 4, take_count = 1, retain = 1,
          genoms = replicate 4 \<lparr>nucleotides = [- 5], scorer = \<lparr>score = Finite 0\<rparr>\<rparr>,
          rng = replicate 17 0 @ [2], distr = \<lparr>dist_a = 0, dist_b = 1\<rparr>, generation = 0,
          shuffle_indices = [0, 1, 2, 3], next_generation = []\<rparr> \<and>
   GenePool_select (test_params (replicate 21 0 @ [2]))
     \<lparr>n_genoms = 4, take_count = 1, retain = 1,
      genoms = replicate 4 \<lparr>nucleotides = [- 5], scorer = \<lparr>score = Finite 0\<rparr>\<rparr>,
      rng = replicate 17 0 @ [2], distr = \<lparr>dist_a = 0, dist_b = 1\<rparr>, generation = 0,
      shuffle_indices = [0, 1, 2, 3], next_generation = []\<rparr> =
     Inr \<lparr>n_genoms = 4, take_count = 1, retain = 1,
          genoms = replicate 4 \<lparr>nucleotides = [- 10], scorer = \<lparr>score = Finite 0\<rparr>\<rparr>,
          rng = [0, 2], distr = \<lparr>dist_a = 0, dist_b = 1\<rparr>, generation = 0,
          shuffle_indices = [0, 3, 0, 3],
          next_generation = replicate 4 \<lparr>nucleotides = [- 5], scorer = \<lparr>score = Finite 0\<rparr>\<rparr>\<rparr> \<and>
   select_mating_pool (test_params (replicate 21 0 @ [2]))
     \<lparr>n_genoms = 4, take_count = 1, retain = 1,
      genoms = replicate 4 \<lparr>nucleotides = [- 10], scorer = \<lparr>score = Finite 0\<rparr>\<rparr>,
      rng = [0, 2], distr = \<lparr>dist_a = 0, dist_b = 1\<rparr>, generation = 0,
      shuffle_indices = [0, 3, 0, 3],
      next_generation = replicate 4 \<lparr>nucleotides = [- 5], scorer = \<lparr>score = Finite 0\<rparr>\<rparr>\<rparr> =
     Inr \<lparr>n_genoms = 4, take_count = 1, retain = 1,
          genoms = replicate 4 \<lparr>nucleotides = [- 10], scorer = \<lparr>score = Finite 0\<rparr>\<rparr>,
          rng = [], distr = \<lparr>dist_a = 0, dist_b = 1\<rparr>, generation = 0,
          shuffle_indices = [0, 0, 0, 0],
          next_generation = replicate 4 \<lparr>nucleotides = [- 5], scorer = \<lparr>score = Finite 0\<rparr>\<rparr>\<rparr> \<and>
   card (set [0, 0, 0, 0 :: nat]) = 1 \<and> (4 :: nat) div 2 = 2 \<and>
   GenePool_new (test_params []) test_platform 3 1 (Finite 0) =
     Inr \<lparr>n_genoms = 3, take_count = 0, retain = 1,
          genoms = replicate 3 \<lparr>nucleotides = [- 5], scorer = \<lparr>score = Finite 0\<rparr>\<rparr>,
          rng = [], distr = \<lparr>dist_a = 0, dist_b = 1\<rparr>, generation = 0,
          shuffle_indices = [0, 1, 2], next_generation = []\<rparr> \<and>
   select_mating_pool (test_params [])
     \<lparr>n_genoms = 3, take_count = 0, retain = 1,
      genoms = replicate 3 \<lparr>nucleotides = [- 5], scorer = \<lparr>score = Finite 0\<rparr>\<rparr>,
      rng = [], distr = \<lparr>dist_a = 0, dist_b = 1\<rparr>, generation = 0,
      shuffle_indices = [0, 1, 2], next_generation = []\<rparr> =
     Inr \<lparr>n_genoms = 3, take_count = 0, retain = 1,
          genoms = replicate 3 \<lparr>nucleotides = [- 5], scorer = \<lparr>score = Finite 0\<rparr>\<rparr>,
          rng = [], distr = \<lparr>dist_a = 0, dist_b = 1\<rparr>, generation = 0,
          shuffle_indices = [2, 2, 1], next_generation = []\<rparr> \<and>
   card (set [2, 2, 1 :: nat]) = 2 \<and> (3 :: nat) div 2 = 1 \<and>
   GenePool_new (test_params []) test_platform 12 1
       (ieee_round binary32 (58333331 / 100000000)) =
     Inr \<lparr>n_genoms = 12, take_count = 7, retain = 0,
          genoms = replicate 12 \<lparr>nucleotides = [- 5], scorer = \<lparr>score = Finite 0\<rparr>\<rparr>,
          rng = [], distr = \<lparr>dist_a = 0, dist_b = 1\<rparr>, generation = 0,
          shuffle_indices = [0, 1, 2, 3, 4, 5, 6, 7, 8, 9, 10, 11], next_generation = []\<rparr> \<and>
   select_mating_pool (test_params [])
     \<lparr>n_genoms = 12, take_count = 7, retain = 0,
      genoms = replicate 12 \<lparr>nucleotides = [- 5], scorer = \<lparr>score = Finite 0\<rparr>\<rparr>,
      rng = [], distr = \<lparr>dist_a = 0, dist_b = 1\<rparr>, generation = 0,
      shuffle_indices = [0, 1, 2, 3, 4, 5, 6, 7, 8, 9, 10, 11], next_generation = []\<rparr> =
     Inr \<lparr>n_genoms = 12, take_count = 7, retain = 0,
          genoms = replicate 12 \<lparr>nucleotides = [- 5], scorer = \<lparr>score = Finite 0\<rparr>\<rparr>,
          rng = [], distr = \<lparr>dist_a = 0, dist_b = 1\<rparr>, generation = 0,
          shuffle_indices = [0, 1, 2, 3, 4, 5, 0, 1, 2, 3, 4, 5], next_generation = []\<rparr> \<and>
   6 \<notin> set [0, 1, 2, 3, 4, 5, 0, 1, 2, 3, 4, 5 :: nat]"
  by code_simp

text \<open>
  Claim C4 (elite participation). In a pool of even size with \<open>0 < take \<le> half\<close>,
  the breeding part of \<^verbatim>\<open>select\<close> returns, having made \<open>n_genoms\<close> calls of
  \<^verbatim>\<open>Genom::crossover_inplace\<close>; every elite index \<open>0, ..., take - 1\<close> is the index of
  the first parent in one of them.
\<close>

theorem elite_participation:
  assumes "reachable P s" and "even (n_genoms s)" and "0 < take_count s"
    and "take_count s \<le> n_genoms s div 2"
  shows "\<exists>s1 calls. select_breed P s = Inr (s1, calls) \<and> length calls = n_genoms s \<and>
           (\<forall>e. e < take_count s \<longrightarrow> (\<exists>c. c \<in> set calls \<and> first_parent c = e))"
proof -
  let ?N = "n_genoms s" and ?half = "n_genoms s div 2"
  from assms(1) have inv: "pool_inv s" by (rule reachable_inv)
  from assms(4) have "take_count s \<le> n_genoms s" by simp
  from select_breed_props [OF inv this, of P]
  obtain s1 calls where b:
    "select_breed P s = Inr (s1, calls)"
    "length (shuffle_indices s1) = ?N"
    "\<forall>k. k < take_count s \<and> k < ?half \<longrightarrow> shuffle_indices s1 ! k = k"
    "map first_parent calls = take ?half (shuffle_indices s1) @ take ?half (shuffle_indices s1)"
    by blast
  from b(4) have "length (map first_parent calls) = 
      length (take ?half (shuffle_indices s1) @ take ?half (shuffle_indices s1))" by simp
  with b(2) have "length calls = ?half + ?half" by simp
  moreover from assms(2) have "?half + ?half = ?N" by presburger
  ultimately have lc: "length calls = ?N" by simp
  have "\<exists>c. c \<in> set calls \<and> first_parent c = e" if e: "e < take_count s" for e
  proof -
    from e assms(4) have eh: "e < ?half" by simp
    with e b(3) have "shuffle_indices s1 ! e = e" by simp
    with eh have "take ?half (shuffle_indices s1) ! e = e" by simp
    moreover from eh b(2) have "e < length (take ?half (shuffle_indices s1))" by simp
    ultimately have "e \<in> set (take ?half (shuffle_indices s1))" by (metis nth_mem)
    then have "e \<in> set (map first_parent calls)" by (simp add: b(4))
    then show ?thesis by auto
  qed
  with b(1) lc show ?thesis by blast
qed

theorem elite_participation_witness:
  "\<exists>s1 calls. select_breed (test_params [])
           \<lparr>n_genoms = 4, take_count = 1, retain = 1,
            genoms = replicate 4 \<lparr>nucleotides = [- 5], scorer = \<lparr>score = Finite 0\<rparr>\<rparr>,
            rng = [], distr = \<lparr>dist_a = 0, dist_b = 1\<rparr>, generation = 0,
            shuffle_indices = [0, 1, 2, 3], next_generation = []\<rparr> = Inr (s1, calls) \<and>
         length calls = 4 \<and> (\<exists>c. c \<in> set calls \<and> first_parent c = 0)"
proof -
  let ?s0 = "\<lparr>n_genoms = 4, take_count = 1, retain = 1,
            genoms = replicate 4 \<lparr>nucleotides = [- 5 :: int], scorer = \<lparr>score = Finite 0\<rparr>\<rparr>,
            rng = [] :: nat list, distr = \<lparr>dist_a = 0, dist_b = 1\<rparr>, generation = 0,
            shuffle_indices = [0, 1, 2, 3], next_generation = []\<rparr>"
  have "GenePool_new (test_params []) test_platform 4 1 (Finite (1 / 4)) = Inr ?s0"
    by code_simp
  then have r: "reachable (test_params []) ?s0" by (rule reachable.constructed)
  have e: "even (n_genoms ?s0)" and t: "0 < take_count ?s0"
    and h: "take_count ?s0 \<le> n_genoms ?s0 div 2" by simp_all
  from elite_participation [OF r e t h] show ?thesis by auto
qed

end
